theory Spec2Isabelle
  imports Main "HOL-Library.Sublist" "HOL-Library.AList"
begin

section \<open>Python values, text and errors\<close>

text \<open>
  The exceptions that the modelled code can raise. \<open>NoEndOfOptionError\<close> and
  \<open>BadSidError\<close> are the two classes declared in rule.py; \<open>FlowbitParseError\<close> is the
  plain \<open>Exception\<close> that \<open>parse_flowbit\<close> constructs; the others are the
  interpreter's own.
\<close>

datatype error =
    NoEndOfOptionError
  | BadSidError
  | FlowbitParseError
  | IndexError
  | KeyError
  | TypeError
  | ValueError
  | AttributeError

text \<open>
  The values a rule field holds: \<open>None\<close>, a boolean, an integer, a string, or a
  list whose elements are strings or \<open>None\<close> (flowbits, metadata, references, features).
\<close>

datatype pyval =
    PNone
  | PBool bool
  | PInt int
  | PStr string
  | PList "string option list"

text \<open>Truth value of an object, as \<open>if x\<close> and \<open>not x\<close> test it.\<close>

fun truthy :: "pyval \<Rightarrow> bool" where
  "truthy PNone = False"
| "truthy (PBool b) = b"
| "truthy (PInt n) = (n \<noteq> 0)"
| "truthy (PStr s) = (s \<noteq> [])"
| "truthy (PList xs) = (xs \<noteq> [])"


text \<open>A string or \<open>None\<close> as a value.\<close>

fun pystr :: "string option \<Rightarrow> pyval" where
  "pystr None = PNone"
| "pystr (Some s) = PStr s"

subsection \<open>Characters\<close>

definition ch_hash :: char where "ch_hash = CHR ''#''"
definition ch_lparen :: char where "ch_lparen = CHR ''(''"
definition ch_rparen :: char where "ch_rparen = CHR '')''"
definition ch_lbracket :: char where "ch_lbracket = CHR ''[''"
definition ch_rbracket :: char where "ch_rbracket = CHR '']''"
definition ch_space :: char where "ch_space = CHR '' ''"
definition ch_semicolon :: char where "ch_semicolon = CHR '';''"
definition ch_colon :: char where "ch_colon = CHR '':''"
definition ch_comma :: char where "ch_comma = CHR '',''"
definition ch_backslash :: char where "ch_backslash = CHR 0x5C"
definition ch_dquote :: char where "ch_dquote = CHR 0x22"
definition ch_newline :: char where "ch_newline = CHR 0x0A"
definition ch_underscore :: char where "ch_underscore = CHR ''_''"

text \<open>
  \<open>str.isspace\<close> on one character, which is also the class \<open>\s\<close> of a text
  pattern: the code points 9 to 13, 28 to 32, 133 and 160.
\<close>

definition py_isspace :: "char \<Rightarrow> bool" where
  "py_isspace c =
     (let n = (of_char c :: nat)
      in (9 \<le> n \<and> n \<le> 13) \<or> (28 \<le> n \<and> n \<le> 32) \<or> n = 133 \<or> n = 160)"

definition is_digit :: "char \<Rightarrow> bool" where
  "is_digit c = (let n = (of_char c :: nat) in 48 \<le> n \<and> n \<le> 57)"

subsection \<open>String operations\<close>

text \<open>\<open>s.strip()\<close>: whitespace removed at both ends.\<close>

definition py_lstrip :: "string \<Rightarrow> string" where
  "py_lstrip s = dropWhile py_isspace s"

definition py_rstrip :: "string \<Rightarrow> string" where
  "py_rstrip s = rev (dropWhile py_isspace (rev s))"

definition py_strip :: "string \<Rightarrow> string" where
  "py_strip s = py_rstrip (py_lstrip s)"

text \<open>\<open>s.find(c)\<close> for a one-character \<open>c\<close>: the first index, or \<open>-1\<close>.\<close>

fun py_find :: "string \<Rightarrow> char \<Rightarrow> int" where
  "py_find [] c = -1"
| "py_find (x # xs) c =
     (if x = c then 0
      else (let r = py_find xs c in if r < 0 then -1 else r + 1))"

text \<open>
  \<open>s[i]\<close>: a negative index counts from the end, an index out of range raises
  \<open>IndexError\<close> (here \<open>None\<close>).
\<close>

definition py_index :: "string \<Rightarrow> int \<Rightarrow> char option" where
  "py_index s i =
     (if 0 \<le> i \<and> i < int (length s) then Some (s ! nat i)
      else if i < 0 \<and> - int (length s) \<le> i then Some (s ! nat (int (length s) + i))
      else None)"

text \<open>\<open>s.split(c, 1)\<close>: split at the first \<open>c\<close> only.\<close>

definition py_split1 :: "string \<Rightarrow> char \<Rightarrow> string list" where
  "py_split1 s c =
     (let i = py_find s c
      in if i < 0 then [s] else [take (nat i) s, drop (nat i + 1) s])"

text \<open>\<open>s.split(c)\<close>: split at every \<open>c\<close>.\<close>

fun py_split :: "string \<Rightarrow> char \<Rightarrow> string list" where
  "py_split [] c = [[]]"
| "py_split (x # xs) c =
     (if x = c then [] # py_split xs c
      else (case py_split xs c of
              [] \<Rightarrow> [[x]]
            | t # ts \<Rightarrow> (x # t) # ts))"

text \<open>\<open>needle in s\<close> and \<open>s.find(needle) > -1\<close> for a string \<open>needle\<close>.\<close>

fun py_contains :: "string \<Rightarrow> string \<Rightarrow> bool" where
  "py_contains needle [] = (needle = [])"
| "py_contains needle (x # xs) = (prefix needle (x # xs) \<or> py_contains needle xs)"

text \<open>\<open>s.startswith(p)\<close> is \<open>prefix p s\<close>; \<open>s.endswith(p)\<close> is \<open>suffix p s\<close>.\<close>

text \<open>
  \<open>int(s)\<close> on a string: surrounding whitespace is dropped, then an optional sign, then
  decimal digits, where single underscores may stand between digits. \<open>None\<close> stands
  for \<open>ValueError\<close>. (The limit that recent interpreters put on the number of digits
  is not modelled.)
\<close>

definition digit_val :: "char \<Rightarrow> int" where
  "digit_val c = int (of_char c) - 48"

definition py_digits :: "string \<Rightarrow> int option" where
  "py_digits s =
     (if s \<noteq> [] \<and> is_digit (hd s) \<and> is_digit (last s) \<and>
         list_all (\<lambda>c. is_digit c \<or> c = ch_underscore) s \<and>
         \<not> py_contains [ch_underscore, ch_underscore] s
      then Some (foldl (\<lambda>acc c. if c = ch_underscore then acc else 10 * acc + digit_val c) 0 s)
      else None)"

definition py_int :: "string \<Rightarrow> int option" where
  "py_int s =
     (case py_strip s of
        [] \<Rightarrow> None
      | c # cs \<Rightarrow>
          if c = CHR ''-'' then map_option uminus (py_digits cs)
          else if c = CHR ''+'' then py_digits cs
          else py_digits (c # cs))"

text \<open>\<open>str(n)\<close> for an integer.\<close>

function nat_str :: "nat \<Rightarrow> string" where
  "nat_str n =
     (if n < 10 then [char_of (48 + n)]
      else nat_str (n div 10) @ [char_of (48 + n mod 10)])"
  by pat_completeness auto
termination
  by (relation "measure (\<lambda>n. n)") auto

definition int_str :: "int \<Rightarrow> string" where
  "int_str i = (if i < 0 then CHR ''-'' # nat_str (nat (- i)) else nat_str (nat i))"

text \<open>
  \<open>repr(s)\<close> for a string, as it appears inside the rendering of a list: single
  quotes unless the string holds a single quote and no double quote; the quote, the
  backslash and the unprintable characters escaped.
\<close>

definition hex_digit :: "nat \<Rightarrow> char" where
  "hex_digit n = (if n < 10 then char_of (48 + n) else char_of (87 + n))"

definition repr_char :: "char \<Rightarrow> char \<Rightarrow> string" where
  "repr_char quote c =
     (let n = (of_char c :: nat)
      in if c = quote \<or> c = ch_backslash then [ch_backslash, c]
         else if n = 9 then [ch_backslash, CHR ''t'']
         else if n = 10 then [ch_backslash, CHR ''n'']
         else if n = 13 then [ch_backslash, CHR ''r'']
         else if n < 32 \<or> n = 127 \<or> (128 \<le> n \<and> n \<le> 160) \<or> n = 173
           then [ch_backslash, CHR ''x'', hex_digit (n div 16), hex_digit (n mod 16)]
         else [c])"

definition py_repr_str :: "string \<Rightarrow> string" where
  "py_repr_str s =
     (let quote = (if CHR 0x27 \<in> set s \<and> ch_dquote \<notin> set s then ch_dquote else CHR 0x27)
      in [quote] @ concat (map (repr_char quote) s) @ [quote])"

fun py_repr_elem :: "string option \<Rightarrow> string" where
  "py_repr_elem None = ''None''"
| "py_repr_elem (Some s) = py_repr_str s"

fun join_comma :: "string list \<Rightarrow> string" where
  "join_comma [] = []"
| "join_comma [x] = x"
| "join_comma (x # y # ys) = x @ '', '' @ join_comma (y # ys)"

text \<open>\<open>str(v)\<close>, which is also how an f-string renders \<open>v\<close>.\<close>

fun py_str :: "pyval \<Rightarrow> string" where
  "py_str PNone = ''None''"
| "py_str (PBool b) = (if b then ''True'' else ''False'')"
| "py_str (PInt n) = int_str n"
| "py_str (PStr s) = s"
| "py_str (PList xs) = ''['' @ join_comma (map py_repr_elem xs) @ '']''"

section \<open>The Rule class\<close>

text \<open>
  \<open>Rule\<close> is a subclass of \<open>dict\<close> with \<open>__getattr__\<close> falling back to the
  dictionary. The dictionary is \<open>items\<close>, an association list in insertion order
  with one entry for each key.
  The class defines no \<open>__setattr__\<close>, so the two assignments the code makes through
  attributes (\<open>rule.enabled = ...\<close> in the resolver and the drop filter,
  \<open>self.raw = ...\<close> in \<open>format\<close>) store an instance attribute beside the
  dictionary, which later attribute reads find first: \<open>attr_enabled\<close> and
  \<open>attr_raw\<close>, \<open>None\<close> while unset.
\<close>

record Rule =
  items :: "(string \<times> pyval) list"
  attr_enabled :: "pyval option"
  attr_raw :: "pyval option"

text \<open>\<open>rule[name]\<close>; \<open>None\<close> stands for \<open>KeyError\<close>.\<close>

definition Rule_getitem :: "Rule \<Rightarrow> string \<Rightarrow> pyval option" where
  "Rule_getitem r name = map_of (items r) name"

text \<open>\<open>rule[name] = v\<close>.\<close>

definition Rule_setitem :: "Rule \<Rightarrow> string \<Rightarrow> pyval \<Rightarrow> Rule" where
  "Rule_setitem r name v = r\<lparr>items := AList.update name v (items r)\<rparr>"

text \<open>\<open>rule.name\<close>: the instance attribute when set, otherwise \<open>__getattr__\<close>.\<close>

definition Rule_getattr :: "Rule \<Rightarrow> string \<Rightarrow> pyval option" where
  "Rule_getattr r name =
     (if name = ''enabled'' \<and> attr_enabled r \<noteq> None then attr_enabled r
      else if name = ''raw'' \<and> attr_raw r \<noteq> None then attr_raw r
      else Rule_getitem r name)"

text \<open>\<open>Rule.__init__(enabled, action, group)\<close>.\<close>

definition Rule_init :: "pyval \<Rightarrow> pyval \<Rightarrow> pyval \<Rightarrow> Rule" where
  "Rule_init enabled action grp =
     \<lparr>items =
        [(''enabled'', enabled),
         (''action'', action),
         (''proto'', PNone),
         (''source_addr'', PNone),
         (''source_port'', PNone),
         (''direction'', PNone),
         (''dest_addr'', PNone),
         (''dest_port'', PNone),
         (''group'', grp),
         (''gid'', PInt 1),
         (''sid'', PNone),
         (''rev'', PInt 0),
         (''msg'', PNone),
         (''flowbits'', PList []),
         (''metadata'', PList []),
         (''references'', PList []),
         (''classtype'', PNone),
         (''priority'', PInt 0),
         (''noalert'', PBool False),
         (''features'', PList []),
         (''raw'', PNone)],
      attr_enabled = None,
      attr_raw = None\<rparr>"



section \<open>Flowbit options\<close>

text \<open>
  \<open>FlowbitResolver.parse_flowbit\<close>. The argument is an element of
  \<open>rule.flowbits\<close>, which is \<open>None\<close> for an option \<open>flowbits;\<close> without a value;
  \<open>None.split\<close> raises \<open>AttributeError\<close>.
\<close>

definition parse_flowbit :: "string option \<Rightarrow> error + (string \<times> string option)" where
  "parse_flowbit flowbit =
     (case flowbit of
        None \<Rightarrow> Inl AttributeError
      | Some s \<Rightarrow>
          (let tokens = py_split1 s ch_comma
           in if length tokens = 1 then Inr (tokens ! 0, None)
              else if length tokens = 2 then Inr (tokens ! 0, Some (tokens ! 1))
              else Inl FlowbitParseError))"

definition setters :: "string list" where
  "setters = [''set'', ''setx'', ''unset'', ''toggle'']"

definition getters :: "string list" where
  "getters = [''isset'', ''isnotset'']"

section \<open>Filters\<close>

text \<open>
  \<open>DropRuleFilter.match\<close>. The wrapped matcher is any object with a \<open>match\<close>
  method: here a function that returns a boolean or raises.
\<close>

definition DropRuleFilter_match :: "(Rule \<Rightarrow> error + bool) \<Rightarrow> Rule \<Rightarrow> error + bool" where
  "DropRuleFilter_match matcher rule =
     (case Rule_getitem rule ''noalert'' of
        None \<Rightarrow> Inl KeyError
      | Some v \<Rightarrow> if truthy v then Inr False else matcher rule)"

section \<open>The rule parser\<close>

subsection \<open>The structural pattern\<close>

text \<open>
  \<open>rule_pattern\<close> is
  \<^verbatim>\<open>^(?P<enabled>#)*[\s#]*(?P<raw>(?P<header>[^()]+)\((?P<options>.*)\)$)\<close>.

  The text after the opening parenthesis must be the options, one closing
  parenthesis and the end of the text; \<open>.\<close> matches no newline, and \<open>$\<close> also
  matches before a newline that ends the text.
\<close>

definition match_options_tail :: "string \<Rightarrow> string option" where
  "match_options_tail body =
     (if body \<noteq> [] \<and> last body = ch_rparen \<and> ch_newline \<notin> set (butlast body)
      then Some (butlast body)
      else if 2 \<le> length body \<and> last body = ch_newline \<and>
              last (butlast body) = ch_rparen \<and>
              ch_newline \<notin> set (butlast (butlast body))
      then Some (butlast (butlast body))
      else None)"

text \<open>
  \<open>rule_pattern.match(buf)\<close>. The result holds whether the group \<open>enabled\<close>
  captured a \<open>#\<close>, and the groups \<open>header\<close>, \<open>options\<close> and \<open>raw\<close>.

  Both leading repetitions are greedy, so they take the longest run of \<open>#\<close> and
  whitespace, and the header is the longest run of characters other than parentheses
  that follows. The header needs one character: when none follows the run, the
  matcher backtracks and gives the last character of the run to the header (a
  header that is no action, so that \<open>parse\<close> returns \<open>None\<close> whatever the group
  \<open>enabled\<close> then holds). No other backtracking changes the outcome, since the
  header always ends at the first parenthesis of the text.
\<close>

definition is_lead :: "char \<Rightarrow> bool" where
  "is_lead c = (c = ch_hash \<or> py_isspace c)"

definition not_paren :: "char \<Rightarrow> bool" where
  "not_paren c = (c \<noteq> ch_lparen \<and> c \<noteq> ch_rparen)"

definition rule_pattern_match :: "string \<Rightarrow> (bool \<times> string \<times> string \<times> string) option" where
  "rule_pattern_match buf =
     (let hashes = takeWhile (\<lambda>c. c = ch_hash) buf;
          lead = takeWhile is_lead buf;
          rest = dropWhile is_lead buf;
          hdr = takeWhile not_paren rest;
          backtracked = (hdr = [] \<and> lead \<noteq> []);
          header = (if backtracked then [last lead] else hdr);
          after = (if backtracked then rest else dropWhile not_paren rest);
          enabled_group =
            (if backtracked \<and> lead = hashes then 2 \<le> length hashes else hashes \<noteq> [])
      in if header = [] then None
         else (case after of
                 [] \<Rightarrow> None
               | c # body \<Rightarrow>
                   if c = ch_lparen
                   then (case match_options_tail body of
                           None \<Rightarrow> None
                         | Some opts \<Rightarrow>
                             Some (enabled_group, header, opts,
                                   header @ [ch_lparen] @ opts @ [ch_rparen]))
                   else None))"

definition actions :: "string list" where
  "actions = [''alert'', ''log'', ''pass'', ''activate'', ''dynamic'', ''drop'',
              ''reject'', ''sdrop'']"

subsection \<open>find_opt_end\<close>

text \<open>
  \<open>find_opt_end(options)\<close>: the loop, with \<open>offset\<close> as its state. \<open>find\<close>
  yields \<open>-1\<close> when no semicolon is left, and the index \<open>offset + i - 1\<close> may then be
  negative (counted from the end) or out of range (\<open>IndexError\<close>).
\<close>

function find_opt_end_loop :: "string \<Rightarrow> nat \<Rightarrow> error + int" where
  "find_opt_end_loop options offset =
     (let i = py_find (drop offset options) ch_semicolon
      in case py_index options (int offset + i - 1) of
           None \<Rightarrow> Inl IndexError
         | Some c \<Rightarrow>
             if c = ch_backslash then find_opt_end_loop options (offset + 2)
             else Inr (int offset + i))"
  by pat_completeness auto
termination
proof (relation "measure (\<lambda>(options, offset). length options + 2 - offset)")
  show "wf (measure (\<lambda>(options, offset). length options + 2 - offset))"
    by simp
next
  fix options :: string and offset :: nat and i :: int and c :: char
  assume i: "i = py_find (drop offset options) ch_semicolon"
    and idx: "py_index options (int offset + i - 1) = Some c"
  have ge: "- 1 \<le> py_find s ch_semicolon" for s
    by (induction s) (auto simp: Let_def)
  from ge[of "drop offset options"] i have "- 1 \<le> i" by simp
  with idx have "offset < length options + 2"
    by (auto simp: py_index_def Let_def split: if_splits)
  then show "((options, offset + 2), (options, offset))
      \<in> measure (\<lambda>(options, offset). length options + 2 - offset)"
    by simp
qed

definition find_opt_end :: "string \<Rightarrow> error + int" where
  "find_opt_end options = find_opt_end_loop options 0"

subsection \<open>One option\<close>

text \<open>\<open>rule[key].append(v)\<close>: \<open>AttributeError\<close> when the field is no list.\<close>

definition Rule_append :: "Rule \<Rightarrow> string \<Rightarrow> string option \<Rightarrow> error + Rule" where
  "Rule_append rule key v =
     (case Rule_getitem rule key of
        None \<Rightarrow> Inl KeyError
      | Some (PList xs) \<Rightarrow> Inr (Rule_setitem rule key (PList (xs @ [v])))
      | Some _ \<Rightarrow> Inl AttributeError)"

text \<open>
  The split of one option into its name and value (lines 255 to 259 of rule.py).
\<close>

definition split_option :: "string \<Rightarrow> string \<times> string option" where
  "split_option option =
     (if py_find option ch_colon > - 1
      then (py_strip (py_split1 option ch_colon ! 0),
            Some (py_strip (py_split1 option ch_colon ! 1)))
      else (option, None))"

text \<open>
  The chain of tests on the option's name (lines 261 to 280 of rule.py).
\<close>

definition store_option :: "string \<Rightarrow> string option \<Rightarrow> Rule \<Rightarrow> error + Rule" where
  "store_option name val rule =
     (if name \<in> set [''gid'', ''sid'', ''rev''] then
        (case val of
           None \<Rightarrow> Inl TypeError
         | Some v \<Rightarrow>
             (case py_int v of
                None \<Rightarrow> Inl ValueError
              | Some n \<Rightarrow> Inr (Rule_setitem rule name (PInt n))))
      else if name = ''metadata'' then
        (let rule1 = (if Rule_getitem rule name = None
                      then Rule_setitem rule name (PList []) else rule)
         in case Rule_getitem rule1 name of
              Some (PList xs) \<Rightarrow>
                (case val of
                   None \<Rightarrow> Inl AttributeError
                 | Some v \<Rightarrow>
                     Inr (Rule_setitem rule1 name
                            (PList (xs @ map (\<lambda>t. Some (py_strip t)) (py_split v ch_comma)))))
            | _ \<Rightarrow> (case val of None \<Rightarrow> Inl AttributeError | Some v \<Rightarrow> Inl TypeError))
      else if name = ''flowbits'' then
        (case Rule_append rule ''flowbits'' val of
           Inl e \<Rightarrow> Inl e
         | Inr rule1 \<Rightarrow>
             (case val of
                None \<Rightarrow> Inr rule1
              | Some v \<Rightarrow>
                  if v \<noteq> [] \<and> py_contains ''noalert'' v
                  then Inr (Rule_setitem rule1 ''noalert'' (PBool True))
                  else Inr rule1))
      else if name = ''noalert'' then Inr (Rule_setitem rule ''noalert'' (PBool True))
      else if name = ''reference'' then Rule_append rule ''references'' val
      else if name = ''msg'' then
        (case val of
           None \<Rightarrow> Inr (Rule_setitem rule name PNone)
         | Some v \<Rightarrow>
             if v \<noteq> [] \<and> prefix [ch_dquote] v \<and> suffix [ch_dquote] v
             then Inr (Rule_setitem rule name (PStr (butlast (tl v))))
             else Inr (Rule_setitem rule name (PStr v)))
      else Inr (Rule_setitem rule name (pystr val)))"

text \<open>The body of the options loop after the split into \<open>option\<close> and the rest.\<close>

definition apply_option :: "string \<Rightarrow> Rule \<Rightarrow> error + Rule" where
  "apply_option option rule =
     (case split_option option of
        (name, val) \<Rightarrow>
          (case store_option name val rule of
             Inl e \<Rightarrow> Inl e
           | Inr rule1 \<Rightarrow>
               if prefix ''ja3'' name then Rule_append rule1 ''features'' (Some ''ja3'')
               else Inr rule1))"

subsection \<open>The options loop\<close>

function parse_options :: "string \<Rightarrow> Rule \<Rightarrow> error + Rule" where
  "parse_options options rule =
     (if options = [] then Inr rule
      else (case find_opt_end options of
              Inl e \<Rightarrow> Inl e
            | Inr index \<Rightarrow>
                if index < 0 then Inl NoEndOfOptionError
                else (case apply_option (py_strip (take (nat index) options)) rule of
                        Inl e \<Rightarrow> Inl e
                      | Inr rule1 \<Rightarrow>
                          parse_options (py_strip (drop (nat index + 1) options)) rule1)))"
  by pat_completeness auto
termination
proof (relation "measure (\<lambda>(options, rule). length options)")
  show "wf (measure (\<lambda>(options, rule). length options))"
    by simp
next
  fix options :: string and rule rule1 :: Rule and index :: int
  assume ne: "options \<noteq> []"
  have "length (py_strip s) \<le> length s" for s
    unfolding py_strip_def py_rstrip_def py_lstrip_def
    by (metis length_dropWhile_le length_rev order_trans)
  then have "length (py_strip (drop (nat index + 1) options)) \<le> length options - (nat index + 1)"
    by (metis length_drop)
  with ne show "((py_strip (drop (nat index + 1) options), rule1), (options, rule))
      \<in> measure (\<lambda>(options, rule). length options)"
    by (cases options) auto
qed

subsection \<open>The header\<close>

text \<open>
  One round of the loop over \<open>states\<close> (lines 205 to 237 of rule.py). The loop's
  variables are the rest of the header, \<open>action\<close>, \<open>direction\<close> and the rule;
  \<open>None\<close> is the early \<open>return None\<close>.
\<close>

definition next_token :: "string \<Rightarrow> (string \<times> string) option" where
  "next_token rem =
     (if hd rem = ch_lbracket then
        (let e = py_find rem ch_rbracket
         in if e < 0 then None
            else Some (py_strip (take (nat (e + 1)) rem), py_strip (drop (nat (e + 1)) rem)))
      else
        (let e = py_find rem ch_space
         in if e < 0 then Some (rem, [])
            else Some (py_strip (take (nat e) rem), py_strip (drop (nat e) rem))))"

definition header_step ::
  "string \<Rightarrow> string \<times> string \<times> string option \<times> Rule \<Rightarrow>
   (string \<times> string \<times> string option \<times> Rule) option" where
  "header_step state st =
     (case st of
        (rem, action, direction, rule) \<Rightarrow>
          if rem = [] then None
          else (case next_token rem of
                  None \<Rightarrow> None
                | Some (token, rem1) \<Rightarrow>
                    if state = ''action'' then Some (rem1, token, direction, rule)
                    else if state = ''proto''
                      then Some (rem1, action, direction, Rule_setitem rule ''proto'' (PStr token))
                    else if state = ''source_addr''
                      then Some (rem1, action, direction,
                                 Rule_setitem rule ''source_addr'' (PStr token))
                    else if state = ''source_port''
                      then Some (rem1, action, direction,
                                 Rule_setitem rule ''source_port'' (PStr token))
                    else if state = ''direction'' then Some (rem1, action, Some token, rule)
                    else if state = ''dest_addr''
                      then Some (rem1, action, direction,
                                 Rule_setitem rule ''dest_addr'' (PStr token))
                    else if state = ''dest_port''
                      then Some (rem1, action, direction,
                                 Rule_setitem rule ''dest_port'' (PStr token))
                    else Some (rem1, action, direction, rule)))"

fun header_loop ::
  "string list \<Rightarrow> string \<times> string \<times> string option \<times> Rule \<Rightarrow>
   (string \<times> string \<times> string option \<times> Rule) option" where
  "header_loop [] st = Some st"
| "header_loop (state # states) st =
     (case header_step state st of
        None \<Rightarrow> None
      | Some st1 \<Rightarrow> header_loop states st1)"

definition states :: "string list" where
  "states = [''action'', ''proto'', ''source_addr'', ''source_port'', ''direction'',
             ''dest_addr'', ''dest_port'']"

text \<open>
  Lines 191 to 237: a header of one word is a decoder rule. The result is
  \<open>action\<close>, \<open>direction\<close> and the rule.
\<close>

definition parse_header :: "string \<Rightarrow> Rule \<Rightarrow> (string \<times> string option \<times> Rule) option" where
  "parse_header header rule =
     (if length (py_split header ch_space) = 1 then Some (header, None, rule)
      else (case header_loop states (header, [], None, rule) of
              None \<Rightarrow> None
            | Some (rem, action, direction, rule1) \<Rightarrow> Some (action, direction, rule1)))"

subsection \<open>parse\<close>

text \<open>
  \<open>parse(buf, group)\<close> for a text \<open>buf\<close>, in three parts. The first is lines
  180 to 246: it yields the groups \<open>raw\<close> and \<open>options\<close> of the match and the
  rule as the options loop receives it, or \<open>None\<close> where \<open>parse\<close> returns
  \<open>None\<close>.
\<close>

definition parse_before_options :: "string \<Rightarrow> pyval \<Rightarrow> (string \<times> string \<times> Rule) option" where
  "parse_before_options buf grp =
     (case rule_pattern_match (py_strip buf) of
        None \<Rightarrow> None
      | Some (enabled_group, header_group, options, raw) \<Rightarrow>
          (let enabled = \<not> enabled_group;
               header = py_strip header_group;
               rule = Rule_init (PBool enabled) PNone grp
           in case parse_header header rule of
                None \<Rightarrow> None
              | Some (action, direction, rule1) \<Rightarrow>
                  if action \<notin> set actions then None
                  else
                    (let rule2 = Rule_setitem rule1 ''action'' (PStr action);
                         rule3 = Rule_setitem rule2 ''direction'' (pystr direction);
                         rule4 = Rule_setitem rule3 ''header'' (PStr header)
                     in Some (raw, options, rule4))))"

text \<open>Lines 285 to 293, after the options loop.\<close>

definition parse_finish :: "string \<Rightarrow> Rule \<Rightarrow> error + Rule option" where
  "parse_finish raw rule =
     (case Rule_getitem rule ''msg'' of
        None \<Rightarrow> Inl KeyError
      | Some msg \<Rightarrow>
          (let rule1 = (if msg = PNone then Rule_setitem rule ''msg'' (PStr []) else rule)
           in case Rule_getitem rule1 ''sid'' of
                None \<Rightarrow> Inl KeyError
              | Some sid \<Rightarrow>
                  if \<not> truthy sid then Inl BadSidError
                  else Inr (Some (Rule_setitem rule1 ''raw'' (PStr (py_strip raw))))))"

text \<open>
  The whole of \<open>parse\<close>. \<open>Inr None\<close> is the result \<open>None\<close>, \<open>Inl e\<close> a raised
  exception.
\<close>

definition parse :: "string \<Rightarrow> pyval \<Rightarrow> error + Rule option" where
  "parse buf grp =
     (case parse_before_options buf grp of
        None \<Rightarrow> Inr None
      | Some (raw, options, rule) \<Rightarrow>
          (case parse_options options rule of
             Inl e \<Rightarrow> Inl e
           | Inr rule1 \<Rightarrow> parse_finish raw rule1))"

section \<open>Formatting\<close>

text \<open>
  The substitution of \<open>Rule.format\<close>:
  \<^verbatim>\<open>re.sub(r'( *sid\: *[0-9]+\;)', r' noalert;\1', raw)\<close>.
  \<open>match_sid s\<close> matches the pattern at the start of \<open>s\<close> and yields the matched
  text and the rest; \<open>sub_noalert\<close> rewrites every match from left to right.
\<close>

definition match_sid :: "string \<Rightarrow> (string \<times> string) option" where
  "match_sid s =
     (let sp1 = takeWhile (\<lambda>c. c = ch_space) s;
          r1 = dropWhile (\<lambda>c. c = ch_space) s
      in if prefix ''sid:'' r1 then
           (let r2 = drop 4 r1;
                sp2 = takeWhile (\<lambda>c. c = ch_space) r2;
                r3 = dropWhile (\<lambda>c. c = ch_space) r2;
                ds = takeWhile is_digit r3;
                r4 = dropWhile is_digit r3
            in if ds \<noteq> [] \<and> r4 \<noteq> [] \<and> hd r4 = ch_semicolon
               then Some (sp1 @ ''sid:'' @ sp2 @ ds @ [ch_semicolon], tl r4)
               else None)
         else None)"

function sub_noalert :: "string \<Rightarrow> string" where
  "sub_noalert s =
     (case match_sid s of
        Some (m, rest) \<Rightarrow> '' noalert;'' @ m @ sub_noalert rest
      | None \<Rightarrow> (case s of [] \<Rightarrow> [] | c # cs \<Rightarrow> c # sub_noalert cs))"
  by pat_completeness auto
termination
proof (relation "measure length")
  show "wf (measure length)" by simp
next
  fix s m rest :: string and x :: "string \<times> string"
  assume "match_sid s = Some x" and "(m, rest) = x"
  then have m: "match_sid s = Some (m, rest)" by simp
  have dw: "length (dropWhile P xs) \<le> length xs" for P and xs :: string
    by (rule length_dropWhile_le)
  let ?r1 = "dropWhile (\<lambda>c. c = ch_space) s"
  let ?r3 = "dropWhile (\<lambda>c. c = ch_space) (drop 4 ?r1)"
  let ?r4 = "dropWhile is_digit ?r3"
  from m have r4: "?r4 \<noteq> []" "rest = tl ?r4"
    by (auto simp: match_sid_def Let_def split: if_splits)
  have "length ?r4 \<le> length ?r3" by (rule dw)
  also have "\<dots> \<le> length (drop 4 ?r1)" by (rule dw)
  also have "\<dots> \<le> length ?r1" by simp
  also have "\<dots> \<le> length s" by (rule dw)
  finally have le: "length ?r4 \<le> length s" .
  from r4 le have "length rest < length s" by (cases ?r4) auto
  then show "(rest, s) \<in> measure length" by simp
next
  fix s cs :: string and c :: char
  assume "s = c # cs"
  then show "(cs, s) \<in> measure length" by simp
qed

text \<open>
  \<open>Rule.format\<close>. It returns the text and the rule, whose \<open>raw\<close> attribute it
  assigns when it injects \<open>noalert;\<close>. On a \<open>raw\<close> that is no string,
  \<open>in\<close> raises \<open>TypeError\<close>, except for a list, where it looks for an element
  equal to the text and \<open>re.sub\<close> raises \<open>TypeError\<close> when there is none.
\<close>

definition Rule_format :: "Rule \<Rightarrow> error + (string \<times> Rule)" where
  "Rule_format self =
     (case Rule_getattr self ''noalert'' of
        None \<Rightarrow> Inl KeyError
      | Some noalert \<Rightarrow>
          (case (if truthy noalert
                 then (case Rule_getattr self ''raw'' of
                         None \<Rightarrow> Inl KeyError
                       | Some (PStr raw) \<Rightarrow>
                           if \<not> py_contains ''noalert;'' raw
                           then Inr (self\<lparr>attr_raw := Some (PStr (sub_noalert raw))\<rparr>)
                           else Inr self
                       | Some (PList xs) \<Rightarrow>
                           if Some ''noalert;'' \<notin> set xs then Inl TypeError else Inr self
                       | Some _ \<Rightarrow> Inl TypeError)
                 else Inr self) of
             Inl e \<Rightarrow> Inl e
           | Inr self1 \<Rightarrow>
               (case Rule_getattr self1 ''enabled'' of
                  None \<Rightarrow> Inl KeyError
                | Some enabled \<Rightarrow>
                    (case Rule_getattr self1 ''raw'' of
                       None \<Rightarrow> Inl KeyError
                     | Some raw \<Rightarrow>
                         Inr ((if truthy enabled then [] else ''# '') @ py_str raw, self1)))))"

text \<open>\<open>Rule.idstr\<close>.\<close>

definition Rule_idstr :: "Rule \<Rightarrow> error + string" where
  "Rule_idstr self =
     (case Rule_getattr self ''gid'' of
        None \<Rightarrow> Inl KeyError
      | Some gid \<Rightarrow>
          (case Rule_getattr self ''sid'' of
             None \<Rightarrow> Inl KeyError
           | Some sid \<Rightarrow> Inr (''['' @ py_str gid @ '':'' @ py_str sid @ '']'')))"

section \<open>The filters' run\<close>

text \<open>
  \<open>ModifyRuleFilter.run\<close>. The compiled pattern and the replacement act through
  \<open>pattern.sub(repl, text)\<close> only, which is the parameter \<open>sub\<close>: a function on
  text that may raise (a replacement template that names a missing group). The
  result is the returned rule; when \<open>parse\<close> yields \<open>None\<close> that is the rule
  passed in, as \<open>format\<close> left it.
\<close>

definition ModifyRuleFilter_run :: "(string \<Rightarrow> error + string) \<Rightarrow> Rule \<Rightarrow> error + Rule" where
  "ModifyRuleFilter_run sub rule =
     (case Rule_format rule of
        Inl e \<Rightarrow> Inl e
      | Inr (text, rule1) \<Rightarrow>
          (case sub text of
             Inl e \<Rightarrow> Inl e
           | Inr modified_rule \<Rightarrow>
               (case Rule_getattr rule1 ''group'' of
                  None \<Rightarrow> Inl KeyError
                | Some grp \<Rightarrow>
                    (case parse modified_rule grp of
                       Inl e \<Rightarrow> Inl e
                     | Inr None \<Rightarrow>
                         (case Rule_idstr rule1 of
                            Inl e \<Rightarrow> Inl e
                          | Inr idstr \<Rightarrow> Inr rule1)
                     | Inr (Some parsed) \<Rightarrow> Inr parsed))))"

text \<open>
  The class \<open>\w\<close> of a text pattern on one character: letters, digits and the
  underscore, with the letters and numeric characters above 127.
\<close>

definition py_isword :: "char \<Rightarrow> bool" where
  "py_isword c =
     (let n = (of_char c :: nat)
      in (48 \<le> n \<and> n \<le> 57) \<or> (65 \<le> n \<and> n \<le> 90) \<or> n = 95 \<or>
         (97 \<le> n \<and> n \<le> 122) \<or>
         n = 170 \<or> n = 178 \<or> n = 179 \<or> n = 181 \<or> n = 185 \<or> n = 186 \<or>
         (188 \<le> n \<and> n \<le> 190) \<or> (192 \<le> n \<and> n \<le> 214) \<or>
         (216 \<le> n \<and> n \<le> 246) \<or> 248 \<le> n)"

text \<open>\<^verbatim>\<open>re.sub("^\w+", "drop", raw)\<close>.\<close>

definition sub_drop :: "string \<Rightarrow> string" where
  "sub_drop raw =
     (if takeWhile py_isword raw = [] then raw
      else ''drop'' @ dropWhile py_isword raw)"

text \<open>
  \<open>DropRuleFilter.run\<close>. \<open>parse\<close> is called with the text alone, so with the
  group \<open>None\<close>; assigning an attribute to the result \<open>None\<close> raises
  \<open>AttributeError\<close>.
\<close>

definition DropRuleFilter_run :: "Rule \<Rightarrow> error + Rule" where
  "DropRuleFilter_run rule =
     (case Rule_getattr rule ''raw'' of
        None \<Rightarrow> Inl KeyError
      | Some (PStr raw) \<Rightarrow>
          (case parse (sub_drop raw) PNone of
             Inl e \<Rightarrow> Inl e
           | Inr drop_rule \<Rightarrow>
               (case Rule_getattr rule ''enabled'' of
                  None \<Rightarrow> Inl KeyError
                | Some enabled \<Rightarrow>
                    (case drop_rule of
                       None \<Rightarrow> Inl AttributeError
                     | Some d \<Rightarrow> Inr (d\<lparr>attr_enabled := Some enabled\<rparr>))))
      | Some _ \<Rightarrow> Inl TypeError)"

section \<open>Matchers on the group\<close>

text \<open>
  \<open>FilenameMatcher.match\<close> and \<open>GroupMatcher.match\<close>. The library functions
  \<open>fnmatch.fnmatch\<close>, \<open>os.path.basename\<close> and the first component of
  \<open>os.path.splitext\<close> are parameters. \<open>hasattr\<close> lets the \<open>KeyError\<close> of a
  missing field through; the library functions raise \<open>TypeError\<close> on a group that
  is neither \<open>None\<close> nor a string.
\<close>

definition FilenameMatcher_match ::
  "(string \<Rightarrow> string \<Rightarrow> bool) \<Rightarrow> string \<Rightarrow> Rule \<Rightarrow> error + bool" where
  "FilenameMatcher_match fnmatch pattern rule =
     (case Rule_getattr rule ''group'' of
        None \<Rightarrow> Inl KeyError
      | Some PNone \<Rightarrow> Inr False
      | Some (PStr g) \<Rightarrow> Inr (fnmatch g pattern)
      | Some _ \<Rightarrow> Inl TypeError)"

definition GroupMatcher_match ::
  "(string \<Rightarrow> string \<Rightarrow> bool) \<Rightarrow> (string \<Rightarrow> string) \<Rightarrow> (string \<Rightarrow> string) \<Rightarrow>
   string \<Rightarrow> Rule \<Rightarrow> error + bool" where
  "GroupMatcher_match fnmatch basename splitext_root pattern rule =
     (case Rule_getattr rule ''group'' of
        None \<Rightarrow> Inl KeyError
      | Some PNone \<Rightarrow> Inr False
      | Some (PStr g) \<Rightarrow>
          if fnmatch (basename g) pattern then Inr True
          else if fnmatch (splitext_root (basename g)) pattern then Inr True
          else Inr False
      | Some _ \<Rightarrow> Inl TypeError)"

section \<open>The flowbit resolver\<close>

text \<open>
  The rule map is a dictionary from rule ids to rules, of which the resolver uses
  \<open>rules.values()\<close> only: it is modelled by the list of its values in the
  dictionary's order, each value an object of its own. Enabling a rule in place
  replaces it in that list.
\<close>

text \<open>\<open>rule.enabled\<close> as a condition.\<close>

definition rule_enabled :: "Rule \<Rightarrow> error + bool" where
  "rule_enabled rule =
     (case Rule_getattr rule ''enabled'' of
        None \<Rightarrow> Inl KeyError
      | Some v \<Rightarrow> Inr (truthy v))"

text \<open>
  The elements that iterating over \<open>rule.flowbits\<close> yields: those of a list, the
  characters of a string; the other values are not iterable.
\<close>

definition iter_flowbits :: "Rule \<Rightarrow> error + string option list" where
  "iter_flowbits rule =
     (case Rule_getattr rule ''flowbits'' of
        None \<Rightarrow> Inl KeyError
      | Some (PList xs) \<Rightarrow> Inr xs
      | Some (PStr s) \<Rightarrow> Inr (map (\<lambda>c. Some [c]) s)
      | Some _ \<Rightarrow> Inl TypeError)"

text \<open>
  A list comprehension \<open>[rule for rule in rules.values() if cond(rule)]\<close>, here
  yielding for each rule whether it is selected; it is evaluated in full, and may
  raise, before the loop over its result starts.
\<close>

fun select_rules :: "(Rule \<Rightarrow> error + bool) \<Rightarrow> Rule list \<Rightarrow> error + bool list" where
  "select_rules cond [] = Inr []"
| "select_rules cond (rule # rules) =
     (case cond rule of
        Inl e \<Rightarrow> Inl e
      | Inr b \<Rightarrow>
          (case select_rules cond rules of
             Inl e \<Rightarrow> Inl e
           | Inr bs \<Rightarrow> Inr (b # bs)))"

subsection \<open>get_required_flowbits\<close>

fun required_of_flowbits ::
  "string option list \<Rightarrow> string option set \<Rightarrow> error + string option set" where
  "required_of_flowbits [] required_flowbits = Inr required_flowbits"
| "required_of_flowbits (flowbit # flowbits) required_flowbits =
     (case parse_flowbit flowbit of
        Inl e \<Rightarrow> Inl e
      | Inr (option, value) \<Rightarrow>
          required_of_flowbits flowbits
            (if option \<in> set getters then insert value required_flowbits
             else required_flowbits))"

fun get_required_loop ::
  "(Rule \<times> bool) list \<Rightarrow> string option set \<Rightarrow> error + string option set" where
  "get_required_loop [] required_flowbits = Inr required_flowbits"
| "get_required_loop ((rule, selected) # rules) required_flowbits =
     (if selected then
        (case iter_flowbits rule of
           Inl e \<Rightarrow> Inl e
         | Inr flowbits \<Rightarrow>
             (case required_of_flowbits flowbits required_flowbits of
                Inl e \<Rightarrow> Inl e
              | Inr required1 \<Rightarrow> get_required_loop rules required1))
      else get_required_loop rules required_flowbits)"

definition get_required_flowbits :: "Rule list \<Rightarrow> error + string option set" where
  "get_required_flowbits rules =
     (case select_rules (\<lambda>rule. if items rule = [] then Inr False else rule_enabled rule)
             rules of
        Inl e \<Rightarrow> Inl e
      | Inr selected \<Rightarrow> get_required_loop (zip rules selected) {})"

subsection \<open>set_required_flowbits\<close>

text \<open>
  The inner loop over the flowbits of one disabled rule: its state is the rule and
  the list \<open>enabled\<close>. There is no \<open>break\<close>: every matching flowbit appends the
  rule again.
\<close>

fun set_required_inner ::
  "string option set \<Rightarrow> string option list \<Rightarrow> Rule \<times> Rule list \<Rightarrow>
   error + Rule \<times> Rule list" where
  "set_required_inner required [] st = Inr st"
| "set_required_inner required (flowbit # flowbits) st =
     (case parse_flowbit flowbit of
        Inl e \<Rightarrow> Inl e
      | Inr (option, value) \<Rightarrow>
          if option \<in> set setters \<and> value \<in> required
          then (let rule1 = (fst st)\<lparr>attr_enabled := Some (PBool True)\<rparr>
                in set_required_inner required flowbits (rule1, snd st @ [rule1]))
          else set_required_inner required flowbits st)"

text \<open>
  The outer loop. It yields the values of the rule map after the pass and the list
  \<open>enabled\<close>.
\<close>

fun set_required_loop ::
  "string option set \<Rightarrow> (Rule \<times> bool) list \<Rightarrow> Rule list \<Rightarrow>
   error + Rule list \<times> Rule list" where
  "set_required_loop required [] enabled = Inr ([], enabled)"
| "set_required_loop required ((rule, selected) # rules) enabled =
     (if selected then
        (case iter_flowbits rule of
           Inl e \<Rightarrow> Inl e
         | Inr flowbits \<Rightarrow>
             (case set_required_inner required flowbits (rule, enabled) of
                Inl e \<Rightarrow> Inl e
              | Inr (rule1, enabled1) \<Rightarrow>
                  (case set_required_loop required rules enabled1 of
                     Inl e \<Rightarrow> Inl e
                   | Inr (rules1, enabled2) \<Rightarrow> Inr (rule1 # rules1, enabled2))))
      else
        (case set_required_loop required rules enabled of
           Inl e \<Rightarrow> Inl e
         | Inr (rules1, enabled2) \<Rightarrow> Inr (rule # rules1, enabled2)))"

definition set_required_flowbits ::
  "Rule list \<Rightarrow> string option set \<Rightarrow> error + Rule list \<times> Rule list" where
  "set_required_flowbits rules required =
     (case select_rules (\<lambda>rule. case rule_enabled rule of
                                  Inl e \<Rightarrow> Inl e
                                | Inr b \<Rightarrow> Inr (\<not> b)) rules of
        Inl e \<Rightarrow> Inl e
      | Inr selected \<Rightarrow> set_required_loop required (zip rules selected) [])"

subsection \<open>resolve\<close>

text \<open>
  A \<open>FlowbitResolver\<close> object holds the list \<open>self.enabled\<close>, which
  \<open>__init__\<close> makes empty.
\<close>

record FlowbitResolver =
  resolver_enabled :: "Rule list"

definition FlowbitResolver_init :: FlowbitResolver where
  "FlowbitResolver_init = \<lparr>resolver_enabled = []\<rparr>"

text \<open>The number of rules of the map that are not enabled.\<close>

definition disabled_count :: "Rule list \<Rightarrow> nat" where
  "disabled_count rules = length (filter (\<lambda>r. rule_enabled r \<noteq> Inr True) rules)"

text \<open>
  \<open>FlowbitResolver.resolve\<close>, recursive as in the source. The result holds the
  resolver, the values of the rule map as the call leaves them, and the returned
  list \<open>self.enabled\<close>. Each recursive call follows a pass that enabled a
  disabled rule, so the number of disabled rules decreases.
\<close>

function resolve :: "FlowbitResolver \<Rightarrow> Rule list \<Rightarrow> error + FlowbitResolver \<times> Rule list \<times> Rule list" where
  "resolve self rules =
     (case get_required_flowbits rules of
        Inl e \<Rightarrow> Inl e
      | Inr required \<Rightarrow>
          (case set_required_flowbits rules required of
             Inl e \<Rightarrow> Inl e
           | Inr (rules1, enabled) \<Rightarrow>
               if enabled \<noteq> []
               then resolve (self\<lparr>resolver_enabled := resolver_enabled self @ enabled\<rparr>) rules1
               else Inr (self, rules1, resolver_enabled self)))"
  by pat_completeness auto
termination
proof (relation "measure (\<lambda>(self, rules). disabled_count rules)")
  show "wf (measure (\<lambda>(self, rules). disabled_count rules))" by simp
next
  fix self :: FlowbitResolver and rules rules1 enabled :: "Rule list"
    and required :: "string option set" and x :: "Rule list \<times> Rule list"
  assume sr: "set_required_flowbits rules required = Inr x"
    and x: "(rules1, enabled) = x" and ne: "enabled \<noteq> []"
  have en_upd: "rule_enabled (r\<lparr>attr_enabled := Some (PBool True)\<rparr>) = Inr True" for r
    by (simp add: rule_enabled_def Rule_getattr_def)
  have inner: "set_required_inner req fbs (r, en) = Inr (r', en') \<Longrightarrow>
      \<exists>new. en' = en @ new \<and> (new = [] \<longrightarrow> r' = r) \<and>
        (new \<noteq> [] \<longrightarrow> rule_enabled r' = Inr True)"
    for req fbs r en r' en'
  proof (induction fbs arbitrary: r en)
    case Nil
    then show ?case by simp
  next
    case (Cons fb fbs)
    show ?case
    proof (cases "parse_flowbit fb")
      case (Inl e)
      with Cons.prems show ?thesis by simp
    next
      case (Inr ov)
      obtain opt v where ov: "ov = (opt, v)" by (cases ov)
      show ?thesis
      proof (cases "opt \<in> set setters \<and> v \<in> req")
        case True
        let ?r1 = "r\<lparr>attr_enabled := Some (PBool True)\<rparr>"
        from Cons.prems Inr ov True
        have "set_required_inner req fbs (?r1, en @ [?r1]) = Inr (r', en')"
          by (simp add: Let_def)
        from Cons.IH[OF this] obtain new where
          new: "en' = (en @ [?r1]) @ new" "new = [] \<longrightarrow> r' = ?r1"
            "new \<noteq> [] \<longrightarrow> rule_enabled r' = Inr True"
          by blast
        have "rule_enabled r' = Inr True"
          using new en_upd[of r] by (cases "new = []") auto
        with new(1) show ?thesis by (intro exI[of _ "?r1 # new"]) simp
      next
        case False
        with Cons.prems Inr ov have "set_required_inner req fbs (r, en) = Inr (r', en')"
          by auto
        from Cons.IH[OF this] show ?thesis .
      qed
    qed
  qed
  have loop: "set_required_loop req zs en = Inr (rs, en') \<Longrightarrow>
      \<exists>new. en' = en @ new \<and> disabled_count rs \<le> disabled_count (map fst zs) \<and>
        (new \<noteq> [] \<longrightarrow> disabled_count rs < disabled_count (map fst zs))"
    if sel: "\<forall>z \<in> set zs. snd z \<longrightarrow> rule_enabled (fst z) \<noteq> Inr True"
    for req zs en rs en'
    using sel
  proof (induction zs arbitrary: en rs)
    case Nil
    then show ?case by (simp add: disabled_count_def)
  next
    case (Cons z zs)
    obtain r s where z: "z = (r, s)" by (cases z)
    from Cons.prems(2) have sel': "\<forall>z \<in> set zs. snd z \<longrightarrow> rule_enabled (fst z) \<noteq> Inr True"
      by simp
    show ?case
    proof (cases s)
      case False
      with Cons.prems(1) z obtain rs1 where
        rec: "set_required_loop req zs en = Inr (rs1, en')" and rs: "rs = r # rs1"
        by (auto split: sum.splits)
      from Cons.IH[OF rec sel'] rs z show ?thesis
        by (auto simp: disabled_count_def)
    next
      case True
      with Cons.prems(1) z obtain fbs r1 en1 rs1 where
        it: "iter_flowbits r = Inr fbs"
        and inn: "set_required_inner req fbs (r, en) = Inr (r1, en1)"
        and rec: "set_required_loop req zs en1 = Inr (rs1, en')" and rs: "rs = r1 # rs1"
        by (auto split: sum.splits)
      from inner[OF inn] obtain new1 where
        n1: "en1 = en @ new1" "new1 = [] \<longrightarrow> r1 = r" "new1 \<noteq> [] \<longrightarrow> rule_enabled r1 = Inr True"
        by blast
      from Cons.IH[OF rec sel'] obtain new2 where
        n2: "en' = en1 @ new2" "disabled_count rs1 \<le> disabled_count (map fst zs)"
          "new2 \<noteq> [] \<longrightarrow> disabled_count rs1 < disabled_count (map fst zs)"
        by blast
      from Cons.prems(2) z True have dis: "rule_enabled r \<noteq> Inr True" by simp
      have "en' = en @ (new1 @ new2)" using n1(1) n2(1) by simp
      moreover have "disabled_count rs \<le> disabled_count (map fst (z # zs))"
        using rs z dis n1 n2(2) by (cases "new1 = []") (auto simp: disabled_count_def)
      moreover have "new1 @ new2 \<noteq> [] \<longrightarrow> disabled_count rs < disabled_count (map fst (z # zs))"
        using rs z dis n1 n2(2,3) by (cases "new1 = []") (auto simp: disabled_count_def)
      ultimately show ?thesis by blast
    qed
  qed
  have sel: "select_rules cond rs = Inr bs \<Longrightarrow>
      length bs = length rs \<and> (\<forall>z \<in> set (zip rs bs). cond (fst z) = Inr (snd z))"
    for cond rs bs
  proof (induction rs arbitrary: bs)
    case Nil
    then show ?case by simp
  next
    case (Cons r rs)
    then show ?case by (auto split: sum.splits)
  qed
  from sr x obtain bs where
    bs: "select_rules (\<lambda>rule. case rule_enabled rule of Inl e \<Rightarrow> Inl e | Inr b \<Rightarrow> Inr (\<not> b)) rules = Inr bs"
    and lp: "set_required_loop required (zip rules bs) [] = Inr (rules1, enabled)"
    by (auto simp: set_required_flowbits_def split: sum.splits)
  from sel[OF bs] have len: "length bs = length rules"
    and flags: "\<forall>z \<in> set (zip rules bs). snd z \<longrightarrow> rule_enabled (fst z) \<noteq> Inr True"
    by (auto split: sum.splits)
  from loop[OF flags lp] ne len have "disabled_count rules1 < disabled_count rules"
    by auto
  then show "((self\<lparr>resolver_enabled := resolver_enabled self @ enabled\<rparr>, rules1), (self, rules))
      \<in> measure (\<lambda>(self, rules). disabled_count rules)"
    by simp
qed


section \<open>Notions used in the statements\<close>

text \<open>
  \<open>carries rule verbs name\<close>: the rule has a flowbits option whose verb is one of
  \<open>verbs\<close> and whose flowbit name, as \<open>parse_flowbit\<close> reads it, is \<open>name\<close>.
\<close>

definition carries :: "Rule \<Rightarrow> string list \<Rightarrow> string option \<Rightarrow> bool" where
  "carries rule verbs name =
     (case iter_flowbits rule of
        Inl e \<Rightarrow> False
      | Inr flowbits \<Rightarrow>
          list_ex (\<lambda>flowbit. case parse_flowbit flowbit of
                                Inl e \<Rightarrow> False
                              | Inr (verb, value) \<Rightarrow> verb \<in> set verbs \<and> value = name)
            flowbits)"

text \<open>
  \<open>option_names rule verbs\<close>: the flowbit names of the rule's flowbits options whose
  verb is one of \<open>verbs\<close>, one entry for each such option, in the rule's order.
\<close>

definition option_names :: "Rule \<Rightarrow> string list \<Rightarrow> string option list" where
  "option_names rule verbs =
     (case iter_flowbits rule of
        Inl e \<Rightarrow> []
      | Inr flowbits \<Rightarrow>
          concat (map (\<lambda>flowbit. case parse_flowbit flowbit of
                                   Inl e \<Rightarrow> []
                                 | Inr (verb, name) \<Rightarrow> if verb \<in> set verbs then [name] else [])
                    flowbits))"

text \<open>The flowbit names that the enabled rules of a map require through a getter.\<close>

definition required_names :: "Rule list \<Rightarrow> string option set" where
  "required_names rules =
     set (concat (map (\<lambda>rule. if rule_enabled rule = Inr True then option_names rule getters
                              else []) rules))"

text \<open>
  The number of flowbits options of a rule that have a setter verb and one of the
  names \<open>required\<close>.
\<close>

definition matching_options :: "string option set \<Rightarrow> Rule \<Rightarrow> nat" where
  "matching_options required rule =
     length (filter (\<lambda>name. name \<in> required) (option_names rule setters))"

text \<open>
  One pass over a map, said with the notions above. \<open>pass_rules\<close> is the map after
  the pass: every disabled rule with a matching option is enabled. \<open>pass_enabled\<close>
  is the list that the pass records: those rules in the map's order, each one once
  for each of its matching options.
\<close>

definition pass_rules :: "Rule list \<Rightarrow> Rule list" where
  "pass_rules rules =
     map (\<lambda>rule. if rule_enabled rule = Inr False \<and>
                     0 < matching_options (required_names rules) rule
                  then rule\<lparr>attr_enabled := Some (PBool True)\<rparr> else rule) rules"

definition pass_enabled :: "Rule list \<Rightarrow> Rule list" where
  "pass_enabled rules =
     concat (map (\<lambda>rule. if rule_enabled rule = Inr False
                          then replicate (matching_options (required_names rules) rule)
                                 (rule\<lparr>attr_enabled := Some (PBool True)\<rparr>)
                          else []) rules)"

text \<open>What \<open>n\<close> passes in a row record.\<close>

fun passes_enabled :: "nat \<Rightarrow> Rule list \<Rightarrow> Rule list" where
  "passes_enabled 0 rules = []"
| "passes_enabled (Suc n) rules = pass_enabled rules @ passes_enabled n (pass_rules rules)"

text \<open>
  \<open>option_list options\<close>: the options of an options text as the loop of \<open>parse\<close>
  reads them, the name and the value of each in order. It follows the loop's own
  steps (\<open>find_opt_end\<close>, the two slices and \<open>split_option\<close>) and ends where the
  loop ends or raises for want of a terminator.
\<close>

function option_list :: "string \<Rightarrow> (string \<times> string option) list" where
  "option_list options =
     (if options = [] then []
      else (case find_opt_end options of
              Inl e \<Rightarrow> []
            | Inr index \<Rightarrow>
                if index < 0 then []
                else split_option (py_strip (take (nat index) options)) #
                     option_list (py_strip (drop (nat index + 1) options))))"
  by pat_completeness auto
termination
proof (relation "measure length")
  show "wf (measure length)" by simp
next
  fix options :: string and index :: int
  assume ne: "options \<noteq> []"
  have "length (py_strip s) \<le> length s" for s
    unfolding py_strip_def py_rstrip_def py_lstrip_def
    by (metis length_dropWhile_le length_rev order_trans)
  then have "length (py_strip (drop (nat index + 1) options)) \<le> length options - (nat index + 1)"
    by (metis length_drop)
  with ne show "(py_strip (drop (nat index + 1) options), options) \<in> measure length"
    by (cases options) auto
qed

text \<open>
  The options text of a rule text: the group \<open>options\<close> of the pattern's match on
  the stripped text, empty when the pattern does not match.
\<close>

definition options_of :: "string \<Rightarrow> string" where
  "options_of buf =
     (case rule_pattern_match (py_strip buf) of
        None \<Rightarrow> []
      | Some (enabled_group, header, options, raw) \<Rightarrow> options)"

text \<open>The values of the options named \<open>group\<close> in a rule text, in order.\<close>

definition group_options :: "string \<Rightarrow> string option list" where
  "group_options raw =
     map snd (filter (\<lambda>(name, val). name = ''group'') (option_list (options_of raw)))"

declare resolve.simps [simp del] parse_options.simps [simp del] find_opt_end_loop.simps [simp del]
  sub_noalert.simps [simp del] nat_str.simps [simp del] option_list.simps [simp del]

section \<open>Facts about text\<close>

lemma py_find_ge: "- 1 \<le> py_find s c"
  by (induction s) (auto simp: Let_def)

lemma py_find_lt: "py_find s c < int (length s)"
  by (induction s) (auto simp: Let_def)

lemma py_find_neg_iff: "py_find s c < 0 \<longleftrightarrow> c \<notin> set s"
  by (induction s) (auto simp: Let_def)

lemma py_find_take: "0 \<le> py_find s c \<Longrightarrow> take (nat (py_find s c)) s = takeWhile (\<lambda>x. x \<noteq> c) s"
  by (induction s) (auto simp: Let_def nat_add_distrib split: if_splits)

lemma py_find_drop: "0 \<le> py_find s c \<Longrightarrow> drop (nat (py_find s c) + 1) s = tl (dropWhile (\<lambda>x. x \<noteq> c) s)"
  by (induction s) (auto simp: Let_def nat_add_distrib split: if_splits)

lemma takeWhile_all: "c \<notin> set s \<Longrightarrow> takeWhile (\<lambda>x. x \<noteq> c) s = s"
  by (induction s) auto

section \<open>Flowbit option parsing\<close>

text \<open>
  Claim C3, as amended. \<open>parse_flowbit\<close> splits at the first comma only
  (\<open>split(",", 1)\<close>), so it raises for no string: it returns the text before the
  first comma as the verb and everything after that comma as the value, and the value
  is \<open>None\<close> when the string has no comma.
\<close>

theorem parse_flowbit_first_comma:
  "parse_flowbit (Some s) =
     Inr (takeWhile (\<lambda>x. x \<noteq> ch_comma) s,
          if ch_comma \<in> set s then Some (tl (dropWhile (\<lambda>x. x \<noteq> ch_comma) s)) else None)"
  using py_find_neg_iff[of s ch_comma] py_find_take[of s ch_comma] py_find_drop[of s ch_comma]
  by (auto simp: parse_flowbit_def py_split1_def Let_def takeWhile_all)

text \<open>
  Claim C3 as stated fails: the option \<open>set,foo,bar\<close> raises nothing; its value
  is \<open>foo,bar\<close>.
\<close>

theorem parse_flowbit_three_segments:
  "parse_flowbit (Some ''set,foo,bar'') = Inr (''set'', Some ''foo,bar'')"
  by (simp add: parse_flowbit_def py_split1_def ch_comma_def Let_def)

section \<open>The drop filter's match\<close>

text \<open>
  Claim C9. On a rule whose \<open>noalert\<close> field is \<open>True\<close>,
  \<open>DropRuleFilter.match\<close> returns \<open>False\<close> whatever the wrapped matcher would
  answer; on a rule whose \<open>noalert\<close> field is \<open>False\<close> it returns exactly what
  the wrapped matcher returns.
\<close>

theorem DropRuleFilter_match_noalert:
  "(Rule_getitem rule ''noalert'' = Some (PBool True) \<longrightarrow>
      DropRuleFilter_match matcher rule = Inr False) \<and>
   (Rule_getitem rule ''noalert'' = Some (PBool False) \<longrightarrow>
      DropRuleFilter_match matcher rule = matcher rule)"
  by (simp add: DropRuleFilter_match_def)

lemma getitem_init_noalert: "Rule_getitem (Rule_init e a g) ''noalert'' = Some (PBool False)"
  by (simp add: Rule_getitem_def Rule_init_def)

lemma getitem_setitem: "Rule_getitem (Rule_setitem r k v) k' = (if k' = k then Some v else Rule_getitem r k')"
  by (simp add: Rule_getitem_def Rule_setitem_def update_conv')

theorem DropRuleFilter_match_noalert_witness:
  "Rule_getitem (Rule_setitem (Rule_init (PBool True) PNone PNone) ''noalert'' (PBool True)) ''noalert'' = Some (PBool True) \<and>
   DropRuleFilter_match (\<lambda>r. Inr True) (Rule_setitem (Rule_init (PBool True) PNone PNone) ''noalert'' (PBool True)) = Inr False \<and>
   Rule_getitem (Rule_init (PBool True) PNone PNone) ''noalert'' = Some (PBool False) \<and>
   DropRuleFilter_match (\<lambda>r. Inr True) (Rule_init (PBool True) PNone PNone) = Inr True"
  using DropRuleFilter_match_noalert[of "Rule_setitem (Rule_init (PBool True) PNone PNone) ''noalert'' (PBool True)" "\<lambda>r. Inr True"]
    DropRuleFilter_match_noalert[of "Rule_init (PBool True) PNone PNone" "\<lambda>r. Inr True"]
  by (simp add: getitem_setitem getitem_init_noalert)

section \<open>Hashing and equality of rules\<close>




section \<open>The flowbit resolver reaches a fixed point\<close>

lemma rule_enabled_enable [simp]:
  "rule_enabled (r\<lparr>attr_enabled := Some (PBool True)\<rparr>) = Inr True"
  by (simp add: rule_enabled_def Rule_getattr_def)

lemma iter_flowbits_enable [simp]:
  "iter_flowbits (r\<lparr>attr_enabled := v\<rparr>) = iter_flowbits r"
  by (simp add: iter_flowbits_def Rule_getattr_def Rule_getitem_def)

lemma carries_enable [simp]:
  "carries (r\<lparr>attr_enabled := v\<rparr>) verbs name = carries r verbs name"
  by (simp add: carries_def)

lemma iter_flowbits_items: "iter_flowbits r = Inr fbs \<Longrightarrow> items r \<noteq> []"
  by (auto simp: iter_flowbits_def Rule_getattr_def Rule_getitem_def split: option.splits)

lemma select_rules_all2:
  "select_rules cond rs = Inr bs \<Longrightarrow> list_all2 (\<lambda>r b. cond r = Inr b) rs bs"
  by (induction rs arbitrary: bs) (auto split: sum.splits)

lemma select_rules_zip:
  assumes "select_rules cond rs = Inr bs"
  shows "length bs = length rs" and "\<forall>z \<in> set (zip rs bs). cond (fst z) = Inr (snd z)"
  using select_rules_all2[OF assms]
  by (auto simp: list_all2_iff)

lemma required_of_flowbits_set:
  "required_of_flowbits fbs acc = Inr req \<Longrightarrow>
   req = acc \<union> {v. \<exists>fb \<in> set fbs. \<exists>opt. parse_flowbit fb = Inr (opt, v) \<and> opt \<in> set getters}"
proof (induction fbs arbitrary: acc)
  case Nil
  then show ?case by simp
next
  case (Cons fb fbs)
  from Cons.prems obtain opt v where pf: "parse_flowbit fb = Inr (opt, v)"
    and rec: "required_of_flowbits fbs (if opt \<in> set getters then insert v acc else acc) = Inr req"
    by (auto split: sum.splits)
  from Cons.IH[OF rec] pf show ?case
    by (auto split: if_splits)
qed

lemma carries_elem:
  "(case parse_flowbit fb of Inl e \<Rightarrow> False
    | Inr (verb, value) \<Rightarrow> verb \<in> set verbs \<and> value = name) \<longleftrightarrow>
   (\<exists>opt. parse_flowbit fb = Inr (opt, name) \<and> opt \<in> set verbs)"
  by (cases "parse_flowbit fb") auto

lemma carries_iff:
  "iter_flowbits r = Inr fbs \<Longrightarrow>
   carries r verbs name \<longleftrightarrow>
     (\<exists>fb \<in> set fbs. \<exists>opt. parse_flowbit fb = Inr (opt, name) \<and> opt \<in> set verbs)"
  by (simp add: carries_def list_ex_iff carries_elem)

lemma carries_iter: "carries r verbs name \<Longrightarrow> \<exists>fbs. iter_flowbits r = Inr fbs"
  by (auto simp: carries_def split: sum.splits)

lemma get_required_loop_set:
  "get_required_loop zs acc = Inr req \<Longrightarrow>
   req = acc \<union> {v. \<exists>r. (r, True) \<in> set zs \<and> carries r getters v}"
proof (induction zs arbitrary: acc)
  case Nil
  then show ?case by simp
next
  case (Cons z zs)
  obtain r s where z: "z = (r, s)" by (cases z)
  show ?case
  proof (cases s)
    case False
    with Cons.prems z have "get_required_loop zs acc = Inr req" by simp
    from Cons.IH[OF this] z False show ?thesis by auto
  next
    case True
    with Cons.prems z obtain fbs req1 where it: "iter_flowbits r = Inr fbs"
      and rq: "required_of_flowbits fbs acc = Inr req1"
      and rec: "get_required_loop zs req1 = Inr req"
      by (auto split: sum.splits)
    from required_of_flowbits_set[OF rq] carries_iff[OF it, of getters]
    have "req1 = acc \<union> {v. carries r getters v}" by auto
    with Cons.IH[OF rec] z True show ?thesis by auto
  qed
qed

lemma get_required_flowbits_set:
  assumes "get_required_flowbits rules = Inr req"
  shows "req = {v. \<exists>r \<in> set rules. rule_enabled r = Inr True \<and> carries r getters v}"
proof -
  let ?cond = "\<lambda>rule. if items rule = [] then Inr False else rule_enabled rule"
  from assms obtain bs where sel: "select_rules ?cond rules = Inr bs"
    and lp: "get_required_loop (zip rules bs) {} = Inr req"
    by (auto simp: get_required_flowbits_def split: sum.splits)
  note z = select_rules_zip[OF sel]
  have "(\<exists>r. (r, True) \<in> set (zip rules bs) \<and> carries r getters v) \<longleftrightarrow>
        (\<exists>r \<in> set rules. rule_enabled r = Inr True \<and> carries r getters v)" for v
  proof
    assume "\<exists>r. (r, True) \<in> set (zip rules bs) \<and> carries r getters v"
    then obtain r where r: "(r, True) \<in> set (zip rules bs)" "carries r getters v" by blast
    from r(1) z(2) have "?cond r = Inr True" by fastforce
    then have "rule_enabled r = Inr True" by (auto split: if_splits)
    moreover from r(1) have "r \<in> set rules" by (rule set_zip_leftD)
    ultimately show "\<exists>r \<in> set rules. rule_enabled r = Inr True \<and> carries r getters v"
      using r(2) by blast
  next
    assume "\<exists>r \<in> set rules. rule_enabled r = Inr True \<and> carries r getters v"
    then obtain r where r: "r \<in> set rules" "rule_enabled r = Inr True" "carries r getters v"
      by blast
    from carries_iter[OF r(3)] iter_flowbits_items have "items r \<noteq> []" by blast
    with r(2) have c: "?cond r = Inr True" by simp
    from r(1) z(1) obtain b where b: "(r, b) \<in> set (zip rules bs)"
      by (metis in_set_impl_in_set_zip1)
    from z(2) b have "?cond (fst (r, b)) = Inr (snd (r, b))" by blast
    then have "?cond r = Inr b" by (simp cong: if_cong)
    with c have "b = True" by (simp only: sum.inject)
    with b r(3) show "\<exists>r. (r, True) \<in> set (zip rules bs) \<and> carries r getters v" by blast
  qed
  with get_required_loop_set[OF lp] show ?thesis by auto
qed

lemma set_required_inner_result:
  "set_required_inner req fbs (r, en) = Inr (r', en') \<Longrightarrow>
   \<exists>new. en' = en @ new \<and> set new \<subseteq> {r\<lparr>attr_enabled := Some (PBool True)\<rparr>} \<and>
     (new = [] \<longrightarrow> r' = r) \<and>
     (new \<noteq> [] \<longrightarrow> r' = r\<lparr>attr_enabled := Some (PBool True)\<rparr>) \<and>
     (new \<noteq> [] \<longleftrightarrow>
        (\<exists>fb \<in> set fbs. \<exists>opt v. parse_flowbit fb = Inr (opt, v) \<and> opt \<in> set setters \<and> v \<in> req))"
proof (induction fbs arbitrary: r en)
  case Nil
  then show ?case by simp
next
  case (Cons fb fbs)
  from Cons.prems obtain opt v where pf: "parse_flowbit fb = Inr (opt, v)"
    by (cases "parse_flowbit fb") auto
  show ?case
  proof (cases "opt \<in> set setters \<and> v \<in> req")
    case True
    let ?r1 = "r\<lparr>attr_enabled := Some (PBool True)\<rparr>"
    from Cons.prems pf True
    have "set_required_inner req fbs (?r1, en @ [?r1]) = Inr (r', en')"
      by (simp add: Let_def)
    from Cons.IH[OF this] obtain new where
      new: "en' = (en @ [?r1]) @ new" "set new \<subseteq> {?r1}"
        "new = [] \<longrightarrow> r' = ?r1" "new \<noteq> [] \<longrightarrow> r' = ?r1"
      by auto
    then have "r' = ?r1" by blast
    with new(1,2) pf True show ?thesis
      by (intro exI[of _ "?r1 # new"]) auto
  next
    case False
    with Cons.prems pf have "set_required_inner req fbs (r, en) = Inr (r', en')"
      by auto
    from Cons.IH[OF this] obtain new where
      new: "en' = en @ new" "set new \<subseteq> {r\<lparr>attr_enabled := Some (PBool True)\<rparr>}"
        "new = [] \<longrightarrow> r' = r" "new \<noteq> [] \<longrightarrow> r' = r\<lparr>attr_enabled := Some (PBool True)\<rparr>"
        "new \<noteq> [] \<longleftrightarrow>
          (\<exists>fb \<in> set fbs. \<exists>opt v. parse_flowbit fb = Inr (opt, v) \<and> opt \<in> set setters \<and> v \<in> req)"
      by blast
    with pf False show ?thesis
      by (intro exI[of _ new]) auto
  qed
qed

lemma set_required_loop_result:
  "set_required_loop req zs en = Inr (rs, en') \<Longrightarrow>
   rs = map (\<lambda>(r, s). if s \<and> (\<exists>v \<in> req. carries r setters v)
                       then r\<lparr>attr_enabled := Some (PBool True)\<rparr> else r) zs \<and>
   (\<exists>new. en' = en @ new \<and>
      set new = {r\<lparr>attr_enabled := Some (PBool True)\<rparr> | r.
                   (r, True) \<in> set zs \<and> (\<exists>v \<in> req. carries r setters v)})"
proof (induction zs arbitrary: en rs)
  case Nil
  then show ?case by simp
next
  case (Cons z zs)
  obtain r s where z: "z = (r, s)" by (cases z)
  show ?case
  proof (cases s)
    case False
    with Cons.prems z obtain rs1 where
      rec: "set_required_loop req zs en = Inr (rs1, en')" and rs: "rs = r # rs1"
      by (auto split: sum.splits)
    from Cons.IH[OF rec] rs z False show ?thesis by auto
  next
    case True
    with Cons.prems z obtain fbs r1 en1 rs1 where
      it: "iter_flowbits r = Inr fbs"
      and inn: "set_required_inner req fbs (r, en) = Inr (r1, en1)"
      and rec: "set_required_loop req zs en1 = Inr (rs1, en')" and rs: "rs = r1 # rs1"
      by (auto split: sum.splits)
    let ?e = "r\<lparr>attr_enabled := Some (PBool True)\<rparr>"
    let ?hit = "\<exists>v \<in> req. carries r setters v"
    from set_required_inner_result[OF inn] obtain new1 where
      n1: "en1 = en @ new1" "set new1 \<subseteq> {?e}" "new1 = [] \<longrightarrow> r1 = r" "new1 \<noteq> [] \<longrightarrow> r1 = ?e"
        "new1 \<noteq> [] \<longleftrightarrow>
          (\<exists>fb \<in> set fbs. \<exists>opt v. parse_flowbit fb = Inr (opt, v) \<and> opt \<in> set setters \<and> v \<in> req)"
      by blast
    have hit: "new1 \<noteq> [] \<longleftrightarrow> ?hit"
      using n1(5) carries_iff[OF it, of setters] by blast
    from Cons.IH[OF rec] obtain new2 where
      n2: "rs1 = map (\<lambda>(r, s). if s \<and> (\<exists>v \<in> req. carries r setters v)
                       then r\<lparr>attr_enabled := Some (PBool True)\<rparr> else r) zs"
        "en' = en1 @ new2"
        "set new2 = {r\<lparr>attr_enabled := Some (PBool True)\<rparr> | r.
                   (r, True) \<in> set zs \<and> (\<exists>v \<in> req. carries r setters v)}"
      by blast
    have r1: "r1 = (if ?hit then ?e else r)" using n1(3,4) hit by auto
    have s1: "set new1 = (if ?hit then {?e} else {})"
      using n1(2) hit by (cases new1) auto
    have "en' = en @ (new1 @ new2)" using n1(1) n2(2) by simp
    moreover have "set (new1 @ new2) = {r\<lparr>attr_enabled := Some (PBool True)\<rparr> | r.
                   (r, True) \<in> set (z # zs) \<and> (\<exists>v \<in> req. carries r setters v)}"
      using s1 n2(3) z True by auto
    ultimately show ?thesis using rs r1 n2(1) z True by auto
  qed
qed

lemma set_required_flowbits_result:
  assumes "set_required_flowbits rules req = Inr (rules1, new)"
  shows "\<forall>r \<in> set rules. \<exists>b. rule_enabled r = Inr b"
    and "rules1 = map (\<lambda>r. if rule_enabled r = Inr False \<and> (\<exists>v \<in> req. carries r setters v)
                          then r\<lparr>attr_enabled := Some (PBool True)\<rparr> else r) rules"
    and "set new = {r\<lparr>attr_enabled := Some (PBool True)\<rparr> | r.
                   r \<in> set rules \<and> rule_enabled r = Inr False \<and> (\<exists>v \<in> req. carries r setters v)}"
proof -
  let ?cond = "\<lambda>rule. case rule_enabled rule of Inl e \<Rightarrow> Inl e | Inr b \<Rightarrow> Inr (\<not> b)"
  from assms obtain bs where sel: "select_rules ?cond rules = Inr bs"
    and lp: "set_required_loop req (zip rules bs) [] = Inr (rules1, new)"
    by (auto simp: set_required_flowbits_def split: sum.splits)
  note z = select_rules_zip[OF sel]
  have flag: "rule_enabled r = Inr (\<not> b)" if "(r, b) \<in> set (zip rules bs)" for r b
  proof -
    from z(2) that have "?cond (fst (r, b)) = Inr (snd (r, b))" by blast
    then show ?thesis by (auto split: sum.splits)
  qed
  have zip_eq: "zip rules bs = map (\<lambda>r. (r, rule_enabled r = Inr False)) rules"
  proof (rule nth_equalityI)
    show "length (zip rules bs) = length (map (\<lambda>r. (r, rule_enabled r = Inr False)) rules)"
      using z(1) by simp
  next
    fix i assume i: "i < length (zip rules bs)"
    then have "(rules ! i, bs ! i) \<in> set (zip rules bs)"
      by (metis nth_mem nth_zip length_zip min_less_iff_conj)
    from flag[OF this] have "bs ! i = (rule_enabled (rules ! i) = Inr False)" by auto
    with i show "zip rules bs ! i = map (\<lambda>r. (r, rule_enabled r = Inr False)) rules ! i"
      by simp
  qed
  show "\<forall>r \<in> set rules. \<exists>b. rule_enabled r = Inr b"
  proof
    fix r assume "r \<in> set rules"
    with z(1) obtain b where "(r, b) \<in> set (zip rules bs)"
      by (metis in_set_impl_in_set_zip1)
    from flag[OF this] show "\<exists>b. rule_enabled r = Inr b" by blast
  qed
  from set_required_loop_result[OF lp]
  show "rules1 = map (\<lambda>r. if rule_enabled r = Inr False \<and> (\<exists>v \<in> req. carries r setters v)
                          then r\<lparr>attr_enabled := Some (PBool True)\<rparr> else r) rules"
    by (simp add: zip_eq comp_def)
  from set_required_loop_result[OF lp]
  show "set new = {r\<lparr>attr_enabled := Some (PBool True)\<rparr> | r.
                   r \<in> set rules \<and> rule_enabled r = Inr False \<and> (\<exists>v \<in> req. carries r setters v)}"
    by (auto simp: zip_eq)
qed

lemma resolve_unfold:
  assumes "resolve self rules = Inr (self', rules', out)"
  shows "\<exists>req rules1 en.
    get_required_flowbits rules = Inr req \<and>
    set_required_flowbits rules req = Inr (rules1, en) \<and>
    (en \<noteq> [] \<longrightarrow>
       resolve (self\<lparr>resolver_enabled := resolver_enabled self @ en\<rparr>) rules1 = Inr (self', rules', out)) \<and>
    (en = [] \<longrightarrow> self' = self \<and> rules' = rules1 \<and> out = resolver_enabled self)"
  using assms
  by (subst (asm) resolve.simps) (auto simp del: resolve.simps split: sum.splits if_splits)

lemma pass_nth:
  assumes "set_required_flowbits rules req = Inr (rules1, en)"
  shows "length rules1 = length rules"
    and "\<And>i. i < length rules \<Longrightarrow>
          rules1 ! i = (if rule_enabled (rules ! i) = Inr False \<and> (\<exists>v \<in> req. carries (rules ! i) setters v)
                        then (rules ! i)\<lparr>attr_enabled := Some (PBool True)\<rparr> else rules ! i)"
    and "set en = {rules1 ! i | i. i < length rules \<and> rule_enabled (rules ! i) = Inr False \<and>
                      rule_enabled (rules1 ! i) = Inr True}"
proof -
  note r = set_required_flowbits_result[OF assms]
  show len: "length rules1 = length rules" using r(2) by simp
  show nth: "rules1 ! i = (if rule_enabled (rules ! i) = Inr False \<and> (\<exists>v \<in> req. carries (rules ! i) setters v)
                        then (rules ! i)\<lparr>attr_enabled := Some (PBool True)\<rparr> else rules ! i)"
    if "i < length rules" for i
    using r(2) that by simp
  show "set en = {rules1 ! i | i. i < length rules \<and> rule_enabled (rules ! i) = Inr False \<and>
                      rule_enabled (rules1 ! i) = Inr True}" (is "_ = ?R")
  proof (intro equalityI subsetI)
    fix x assume "x \<in> set en"
    with r(3) obtain q where q: "x = q\<lparr>attr_enabled := Some (PBool True)\<rparr>" "q \<in> set rules"
      "rule_enabled q = Inr False" "\<exists>v \<in> req. carries q setters v" by auto
    from q(2) obtain i where i: "i < length rules" "rules ! i = q" by (auto simp: in_set_conv_nth)
    with nth[OF i(1)] q have "rules1 ! i = x" "rule_enabled (rules1 ! i) = Inr True" by auto
    with i q(3) show "x \<in> ?R" by blast
  next
    fix x assume "x \<in> ?R"
    then obtain i where i: "i < length rules" "x = rules1 ! i" "rule_enabled (rules ! i) = Inr False"
      "rule_enabled (rules1 ! i) = Inr True" by blast
    from nth[OF i(1)] i(3,4) have hit: "\<exists>v \<in> req. carries (rules ! i) setters v"
      by (auto split: if_splits)
    with nth[OF i(1)] i(3) have "x = (rules ! i)\<lparr>attr_enabled := Some (PBool True)\<rparr>"
      using i(2) by simp
    moreover have "rules ! i \<in> set rules" using i(1) by simp
    ultimately show "x \<in> set en" using r(3) i(3) hit by blast
  qed
qed

lemma resolve_result:
  "resolve self rules = Inr (self', rules', out) \<Longrightarrow>
   length rules' = length rules \<and>
   (\<forall>i < length rules. rules' ! i = rules ! i \<or>
      (rule_enabled (rules ! i) = Inr False \<and>
       rules' ! i = (rules ! i)\<lparr>attr_enabled := Some (PBool True)\<rparr>)) \<and>
   (\<forall>r \<in> set rules'. \<forall>r2 \<in> set rules'. \<forall>name.
      \<not> (rule_enabled r = Inr False \<and> carries r setters name \<and>
         rule_enabled r2 = Inr True \<and> carries r2 getters name)) \<and>
   (\<exists>new. out = resolver_enabled self @ new \<and>
      set new = {rules' ! i | i. i < length rules \<and> rule_enabled (rules ! i) = Inr False \<and>
                    rule_enabled (rules' ! i) = Inr True})"
proof (induction self rules arbitrary: self' rules' out rule: resolve.induct)
  case (1 self rules)
  obtain req rules1 en where
    gr: "get_required_flowbits rules = Inr req"
    and sr: "set_required_flowbits rules req = Inr (rules1, en)"
    and step: "en \<noteq> [] \<longrightarrow>
       resolve (self\<lparr>resolver_enabled := resolver_enabled self @ en\<rparr>) rules1 = Inr (self', rules', out)"
    and stop: "en = [] \<longrightarrow> self' = self \<and> rules' = rules1 \<and> out = resolver_enabled self"
    using resolve_unfold[OF "1.prems"] by blast
  note p = pass_nth[OF sr]
  note req = get_required_flowbits_set[OF gr]
  show ?case
  proof (cases "en = []")
    case True
    with stop have eqs: "self' = self" "rules' = rules1" "out = resolver_enabled self" by auto
    have nohit: "\<not> (rule_enabled (rules ! i) = Inr False \<and> (\<exists>v \<in> req. carries (rules ! i) setters v))"
      if "i < length rules" for i
    proof
      assume h: "rule_enabled (rules ! i) = Inr False \<and> (\<exists>v \<in> req. carries (rules ! i) setters v)"
      with p(2)[OF that] have "rule_enabled (rules1 ! i) = Inr True" by simp
      with h that have "rules1 ! i \<in> set en" unfolding p(3) by blast
      with True show False by simp
    qed
    have same: "rules1 = rules"
    proof (rule nth_equalityI)
      show "length rules1 = length rules" by (rule p(1))
    next
      fix i assume "i < length rules1"
      then have i: "i < length rules" using p(1) by simp
      from p(2)[OF i] nohit[OF i] show "rules1 ! i = rules ! i" by simp
    qed
    have fixp: "\<not> (rule_enabled r = Inr False \<and> carries r setters name \<and>
         rule_enabled r2 = Inr True \<and> carries r2 getters name)"
      if "r \<in> set rules" "r2 \<in> set rules" for r r2 name
    proof
      assume h: "rule_enabled r = Inr False \<and> carries r setters name \<and>
         rule_enabled r2 = Inr True \<and> carries r2 getters name"
      with that(2) req have "name \<in> req" by blast
      moreover from that(1) obtain i where "i < length rules" "rules ! i = r"
        by (auto simp: in_set_conv_nth)
      ultimately show False using nohit h by blast
    qed
    have "{rules ! i | i. i < length rules \<and> rule_enabled (rules ! i) = Inr False \<and>
                    rule_enabled (rules ! i) = Inr True} = {}" by auto
    then have "\<exists>new. out = resolver_enabled self @ new \<and>
      set new = {rules' ! i | i. i < length rules \<and> rule_enabled (rules ! i) = Inr False \<and>
                    rule_enabled (rules' ! i) = Inr True}"
      using eqs same by (intro exI[of _ "[]"]) simp
    moreover have "length rules' = length rules" using eqs same by simp
    moreover have "\<forall>i < length rules. rules' ! i = rules ! i \<or>
      (rule_enabled (rules ! i) = Inr False \<and>
       rules' ! i = (rules ! i)\<lparr>attr_enabled := Some (PBool True)\<rparr>)" using eqs same by simp
    moreover have "\<forall>r \<in> set rules'. \<forall>r2 \<in> set rules'. \<forall>name.
      \<not> (rule_enabled r = Inr False \<and> carries r setters name \<and>
         rule_enabled r2 = Inr True \<and> carries r2 getters name)"
      using eqs same fixp by blast
    ultimately show ?thesis by blast
  next
    case False
    from step False have rec:
      "resolve (self\<lparr>resolver_enabled := resolver_enabled self @ en\<rparr>) rules1 = Inr (self', rules', out)"
      by blast
    have re: "resolver_enabled (self\<lparr>resolver_enabled := resolver_enabled self @ en\<rparr>) =
        resolver_enabled self @ en" by simp
    from "1.IH"[OF gr sr refl False rec, unfolded re] obtain new2 where
      ih: "length rules' = length rules1"
        "\<forall>i < length rules1. rules' ! i = rules1 ! i \<or>
          (rule_enabled (rules1 ! i) = Inr False \<and>
           rules' ! i = (rules1 ! i)\<lparr>attr_enabled := Some (PBool True)\<rparr>)"
        "\<forall>r \<in> set rules'. \<forall>r2 \<in> set rules'. \<forall>name.
          \<not> (rule_enabled r = Inr False \<and> carries r setters name \<and>
             rule_enabled r2 = Inr True \<and> carries r2 getters name)"
        "out = (resolver_enabled self @ en) @ new2"
        "set new2 = {rules' ! i | i. i < length rules1 \<and> rule_enabled (rules1 ! i) = Inr False \<and>
                    rule_enabled (rules' ! i) = Inr True}"
      by blast
    have len: "length rules' = length rules" using ih(1) p(1) by simp
    have main: "rules' ! i = rules ! i \<or>
          (rule_enabled (rules ! i) = Inr False \<and>
           rules' ! i = (rules ! i)\<lparr>attr_enabled := Some (PBool True)\<rparr>)"
      if "i < length rules" for i
    proof -
      from that p(1) have "i < length rules1" by simp
      with ih(2) have d: "rules' ! i = rules1 ! i \<or>
          (rule_enabled (rules1 ! i) = Inr False \<and>
           rules' ! i = (rules1 ! i)\<lparr>attr_enabled := Some (PBool True)\<rparr>)" by blast
      show ?thesis
      proof (cases "rule_enabled (rules ! i) = Inr False \<and> (\<exists>v \<in> req. carries (rules ! i) setters v)")
        case True
        with p(2)[OF that] have e: "rules1 ! i = (rules ! i)\<lparr>attr_enabled := Some (PBool True)\<rparr>"
          by simp
        then have "rule_enabled (rules1 ! i) = Inr True" by simp
        with d have "rules' ! i = rules1 ! i" by auto
        with e True show ?thesis by simp
      next
        case False
        with p(2)[OF that] have "rules1 ! i = rules ! i" by simp
        with d show ?thesis by simp
      qed
    qed
    have s: "set (en @ new2) = {rules' ! i | i. i < length rules \<and> rule_enabled (rules ! i) = Inr False \<and>
                    rule_enabled (rules' ! i) = Inr True}" (is "_ = ?R")
    proof (intro equalityI subsetI)
      fix x assume "x \<in> set (en @ new2)"
      then consider "x \<in> set en" | "x \<in> set new2" by auto
      then show "x \<in> ?R"
      proof cases
        case 1
        then obtain i where i: "i < length rules" "x = rules1 ! i"
          "rule_enabled (rules ! i) = Inr False" "rule_enabled (rules1 ! i) = Inr True"
          unfolding p(3) by blast
        with ih(2) p(1) have "rules' ! i = rules1 ! i" by auto
        with i have "x = rules' ! i \<and> i < length rules \<and> rule_enabled (rules ! i) = Inr False \<and>
            rule_enabled (rules' ! i) = Inr True" by simp
        then show ?thesis by blast
      next
        case 2
        then obtain i where i: "i < length rules1" "x = rules' ! i"
          "rule_enabled (rules1 ! i) = Inr False" "rule_enabled (rules' ! i) = Inr True"
          unfolding ih(5) by blast
        from i(1) p(1) have il: "i < length rules" by simp
        from p(2)[OF il] i(3) have "rules1 ! i = rules ! i" by (auto split: if_splits)
        with i il have "x = rules' ! i \<and> i < length rules \<and> rule_enabled (rules ! i) = Inr False \<and>
            rule_enabled (rules' ! i) = Inr True" by simp
        then show ?thesis by blast
      qed
    next
      fix x assume "x \<in> ?R"
      then obtain i where i: "i < length rules" "x = rules' ! i"
        "rule_enabled (rules ! i) = Inr False" "rule_enabled (rules' ! i) = Inr True" by blast
      show "x \<in> set (en @ new2)"
      proof (cases "rule_enabled (rules1 ! i) = Inr True")
        case True
        with i have "rules1 ! i \<in> set en" unfolding p(3) by blast
        moreover from ih(2) p(1) i(1) True have "rules' ! i = rules1 ! i" by auto
        ultimately show ?thesis using i(2) by simp
      next
        case False
        with p(2)[OF i(1)] have "rules1 ! i = rules ! i" by (auto split: if_splits)
        with i p(1) have "x = rules' ! i \<and> i < length rules1 \<and> rule_enabled (rules1 ! i) = Inr False \<and>
            rule_enabled (rules' ! i) = Inr True" by simp
        then have "x \<in> set new2" unfolding ih(5) by blast
        then show ?thesis by simp
      qed
    qed
    have "\<exists>new. out = resolver_enabled self @ new \<and> set new = ?R"
      using ih(4) s by (intro exI[of _ "en @ new2"]) simp
    with len main ih(3) show ?thesis by blast
  qed
qed

lemma pass_empty:
  assumes "set_required_flowbits rules req = Inr (rules1, [])"
  shows "rules1 = rules"
proof -
  note r = set_required_flowbits_result[OF assms]
  from r(3) have "\<forall>r \<in> set rules. \<not> (rule_enabled r = Inr False \<and> (\<exists>v \<in> req. carries r setters v))"
    by auto
  then have "map (\<lambda>r. if rule_enabled r = Inr False \<and> (\<exists>v \<in> req. carries r setters v)
                          then r\<lparr>attr_enabled := Some (PBool True)\<rparr> else r) rules = rules"
    by (intro map_idI) auto
  with r(2) show ?thesis by simp
qed





lemma resolve_example2:
  "resolve FlowbitResolver_init
     [Rule_setitem (Rule_init (PBool False) PNone PNone) ''flowbits'' (PList [Some ''set,foo'']),
      Rule_setitem (Rule_init (PBool True) PNone PNone) ''flowbits'' (PList [Some ''isset,foo''])] =
   Inr (\<lparr>resolver_enabled =
          [(Rule_setitem (Rule_init (PBool False) PNone PNone) ''flowbits'' (PList [Some ''set,foo'']))
           \<lparr>attr_enabled := Some (PBool True)\<rparr>]\<rparr>,
        [(Rule_setitem (Rule_init (PBool False) PNone PNone) ''flowbits'' (PList [Some ''set,foo'']))
           \<lparr>attr_enabled := Some (PBool True)\<rparr>,
         Rule_setitem (Rule_init (PBool True) PNone PNone) ''flowbits'' (PList [Some ''isset,foo''])],
        [(Rule_setitem (Rule_init (PBool False) PNone PNone) ''flowbits'' (PList [Some ''set,foo'']))
           \<lparr>attr_enabled := Some (PBool True)\<rparr>])"
  by code_simp

lemma carries_option_names: "carries r verbs name \<longleftrightarrow> name \<in> set (option_names r verbs)"
proof (cases "iter_flowbits r")
  case (Inl e)
  then show ?thesis by (simp add: carries_def option_names_def)
next
  case (Inr fbs)
  have "(\<exists>fb \<in> set fbs. \<exists>opt. parse_flowbit fb = Inr (opt, name) \<and> opt \<in> set verbs) \<longleftrightarrow>
        (\<exists>fb \<in> set fbs. name \<in> set (case parse_flowbit fb of Inl e \<Rightarrow> []
             | Inr (verb, name) \<Rightarrow> if verb \<in> set verbs then [name] else []))"
  proof (intro bex_cong refl)
    fix fb
    show "(\<exists>opt. parse_flowbit fb = Inr (opt, name) \<and> opt \<in> set verbs) \<longleftrightarrow>
      name \<in> set (case parse_flowbit fb of Inl e \<Rightarrow> []
             | Inr (verb, name) \<Rightarrow> if verb \<in> set verbs then [name] else [])"
      by (cases "parse_flowbit fb") auto
  qed
  with carries_iff[OF Inr, of verbs name] Inr show ?thesis
    by (simp add: option_names_def)
qed

lemma required_names_eq:
  "required_names rules = {v. \<exists>r \<in> set rules. rule_enabled r = Inr True \<and> carries r getters v}"
  by (auto simp: required_names_def carries_option_names split: if_splits)

lemma get_required_flowbits_names:
  "get_required_flowbits rules = Inr req \<Longrightarrow> req = required_names rules"
  using get_required_flowbits_set[of rules req] by (simp add: required_names_eq)

lemma matching_options_pos:
  "0 < matching_options req r \<longleftrightarrow> (\<exists>v \<in> req. carries r setters v)"
  by (auto simp: matching_options_def carries_option_names filter_empty_conv)

lemma set_required_inner_exact:
  "set_required_inner req fbs (r, en) = Inr (r', en') \<Longrightarrow>
   en' = en @ replicate
            (length (filter (\<lambda>name. name \<in> req)
               (concat (map (\<lambda>fb. case parse_flowbit fb of Inl e \<Rightarrow> []
                  | Inr (verb, name) \<Rightarrow> if verb \<in> set setters then [name] else []) fbs))))
            (r\<lparr>attr_enabled := Some (PBool True)\<rparr>)"
proof (induction fbs arbitrary: r en)
  case Nil
  then show ?case by simp
next
  case (Cons fb fbs)
  from Cons.prems obtain opt v where pf: "parse_flowbit fb = Inr (opt, v)"
    by (cases "parse_flowbit fb") auto
  show ?case
  proof (cases "opt \<in> set setters \<and> v \<in> req")
    case True
    let ?r1 = "r\<lparr>attr_enabled := Some (PBool True)\<rparr>"
    from Cons.prems pf True
    have "set_required_inner req fbs (?r1, en @ [?r1]) = Inr (r', en')"
      by (simp add: Let_def)
    from Cons.IH[OF this] pf True show ?thesis
      by (simp add: replicate_app_Cons_same)
  next
    case False
    with Cons.prems pf have "set_required_inner req fbs (r, en) = Inr (r', en')"
      by auto
    from Cons.IH[OF this] pf False show ?thesis by auto
  qed
qed

lemma set_required_loop_exact:
  "set_required_loop req zs en = Inr (rs, en') \<Longrightarrow>
   en' = en @ concat (map (\<lambda>(r, s). if s then replicate (matching_options req r)
                                                (r\<lparr>attr_enabled := Some (PBool True)\<rparr>)
                                    else []) zs)"
proof (induction zs arbitrary: en rs)
  case Nil
  then show ?case by simp
next
  case (Cons z zs)
  obtain r s where z: "z = (r, s)" by (cases z)
  show ?case
  proof (cases s)
    case False
    with Cons.prems z obtain rs1 where
      rec: "set_required_loop req zs en = Inr (rs1, en')"
      by (auto split: sum.splits)
    from Cons.IH[OF rec] z False show ?thesis by simp
  next
    case True
    with Cons.prems z obtain fbs r1 en1 rs1 where
      it: "iter_flowbits r = Inr fbs"
      and inn: "set_required_inner req fbs (r, en) = Inr (r1, en1)"
      and rec: "set_required_loop req zs en1 = Inr (rs1, en')"
      by (auto split: sum.splits)
    from set_required_inner_exact[OF inn] it
    have "en1 = en @ replicate (matching_options req r) (r\<lparr>attr_enabled := Some (PBool True)\<rparr>)"
      by (simp add: matching_options_def option_names_def)
    with Cons.IH[OF rec] z True show ?thesis by simp
  qed
qed

lemma select_disabled_zip:
  assumes "select_rules (\<lambda>rule. case rule_enabled rule of Inl e \<Rightarrow> Inl e | Inr b \<Rightarrow> Inr (\<not> b))
             rules = Inr bs"
  shows "zip rules bs = map (\<lambda>r. (r, rule_enabled r = Inr False)) rules"
proof -
  let ?cond = "\<lambda>rule. case rule_enabled rule of Inl e \<Rightarrow> Inl e | Inr b \<Rightarrow> Inr (\<not> b)"
  note z = select_rules_zip[OF assms]
  have flag: "rule_enabled r = Inr (\<not> b)" if "(r, b) \<in> set (zip rules bs)" for r b
  proof -
    from z(2) that have "?cond (fst (r, b)) = Inr (snd (r, b))" by blast
    then show ?thesis by (auto split: sum.splits)
  qed
  show ?thesis
  proof (rule nth_equalityI)
    show "length (zip rules bs) = length (map (\<lambda>r. (r, rule_enabled r = Inr False)) rules)"
      using z(1) by simp
  next
    fix i assume i: "i < length (zip rules bs)"
    then have "(rules ! i, bs ! i) \<in> set (zip rules bs)"
      by (metis nth_mem nth_zip length_zip min_less_iff_conj)
    from flag[OF this] have "bs ! i = (rule_enabled (rules ! i) = Inr False)" by auto
    with i show "zip rules bs ! i = map (\<lambda>r. (r, rule_enabled r = Inr False)) rules ! i"
      by simp
  qed
qed

lemma set_required_flowbits_exact:
  assumes "set_required_flowbits rules (required_names rules) = Inr (rules1, en)"
  shows "rules1 = pass_rules rules" and "en = pass_enabled rules"
proof -
  from set_required_flowbits_result(2)[OF assms]
  show "rules1 = pass_rules rules"
    by (simp add: pass_rules_def matching_options_pos)
  from assms obtain bs where
    sel: "select_rules (\<lambda>rule. case rule_enabled rule of Inl e \<Rightarrow> Inl e | Inr b \<Rightarrow> Inr (\<not> b))
             rules = Inr bs"
    and lp: "set_required_loop (required_names rules) (zip rules bs) [] = Inr (rules1, en)"
    by (auto simp: set_required_flowbits_def split: sum.splits)
  from set_required_loop_exact[OF lp] select_disabled_zip[OF sel]
  show "en = pass_enabled rules"
    by (simp add: pass_enabled_def comp_def)
qed

lemma filter_length_less:
  assumes "x \<in> set xs" "\<not> P x" "Q x" "\<And>y. P y \<Longrightarrow> Q y"
  shows "length (filter P xs) < length (filter Q xs)"
  using assms(1)
proof (induction xs)
  case Nil
  then show ?case by simp
next
  case (Cons y ys)
  have le: "length (filter P ys) \<le> length (filter Q ys)"
    by (induction ys) (auto dest: assms(4))
  show ?case
  proof (cases "x = y")
    case True
    with assms(2,3) le show ?thesis by simp
  next
    case False
    with Cons have "length (filter P ys) < length (filter Q ys)" by simp
    then show ?thesis using assms(4)[of y] by auto
  qed
qed

lemma pass_rules_disabled_count:
  assumes "pass_enabled rules \<noteq> []"
  shows "disabled_count (pass_rules rules) < disabled_count rules"
proof -
  let ?req = "required_names rules"
  let ?f = "\<lambda>rule. if rule_enabled rule = Inr False \<and> 0 < matching_options ?req rule
                  then rule\<lparr>attr_enabled := Some (PBool True)\<rparr> else rule"
  from assms obtain x where x: "x \<in> set rules" "rule_enabled x = Inr False"
    "0 < matching_options ?req x"
    by (auto simp: pass_enabled_def split: if_splits)
  have "disabled_count (pass_rules rules) =
        length (filter (\<lambda>r. rule_enabled (?f r) \<noteq> Inr True) rules)"
    by (simp add: disabled_count_def pass_rules_def filter_map comp_def)
  also have "\<dots> < length (filter (\<lambda>r. rule_enabled r \<noteq> Inr True) rules)"
  proof (rule filter_length_less[OF x(1)])
    show "\<not> rule_enabled (?f x) \<noteq> Inr True" using x(2,3) by simp
    show "rule_enabled x \<noteq> Inr True" using x(2) by simp
    show "rule_enabled y \<noteq> Inr True" if "rule_enabled (?f y) \<noteq> Inr True" for y
      using that by (auto split: if_splits)
  qed
  finally show ?thesis by (simp add: disabled_count_def)
qed

lemma pass_rules_fixed:
  assumes "pass_enabled rules = []"
  shows "pass_rules rules = rules"
proof -
  have "\<not> (rule_enabled r = Inr False \<and> 0 < matching_options (required_names rules) r)"
    if r: "r \<in> set rules" for r
  proof
    assume a: "rule_enabled r = Inr False \<and> 0 < matching_options (required_names rules) r"
    let ?g = "\<lambda>rule. if rule_enabled rule = Inr False
                          then replicate (matching_options (required_names rules) rule)
                                 (rule\<lparr>attr_enabled := Some (PBool True)\<rparr>)
                          else []"
    from assms have "concat (map ?g rules) = []" by (simp only: pass_enabled_def)
    then have "\<forall>xs \<in> set (map ?g rules). xs = []" by (simp only: concat_eq_Nil_conv)
    moreover from r have "?g r \<in> set (map ?g rules)"
      unfolding set_map by (rule imageI)
    ultimately have "?g r = []" by blast
    with a show False by simp
  qed
  then have "\<forall>r \<in> set rules. \<not> (rule_enabled r = Inr False \<and>
      0 < matching_options (required_names rules) r)" by blast
  then show ?thesis unfolding pass_rules_def by (intro map_idI) auto
qed

lemma passes_fixed:
  assumes "pass_enabled rules = []"
  shows "(pass_rules ^^ n) rules = rules \<and> passes_enabled n rules = []"
  using pass_rules_fixed[OF assms] assms
  by (induction n) (simp_all add: funpow_swap1)

text \<open>The result of \<open>resolve\<close> in terms of passes.\<close>

lemma resolve_passes:
  "resolve self rules = Inr (self', rules', out) \<Longrightarrow> disabled_count rules \<le> n \<Longrightarrow>
   rules' = (pass_rules ^^ n) rules \<and> out = resolver_enabled self @ passes_enabled n rules"
proof (induction self rules arbitrary: self' rules' out n rule: resolve.induct)
  case (1 self rules)
  obtain req rules1 en where
    gr: "get_required_flowbits rules = Inr req"
    and sr: "set_required_flowbits rules req = Inr (rules1, en)"
    and step: "en \<noteq> [] \<longrightarrow>
       resolve (self\<lparr>resolver_enabled := resolver_enabled self @ en\<rparr>) rules1 = Inr (self', rules', out)"
    and stop: "en = [] \<longrightarrow> self' = self \<and> rules' = rules1 \<and> out = resolver_enabled self"
    using resolve_unfold[OF "1.prems"(1)] by blast
  from get_required_flowbits_names[OF gr] sr
  have sr': "set_required_flowbits rules (required_names rules) = Inr (rules1, en)" by simp
  note ex = set_required_flowbits_exact[OF sr']
  show ?case
  proof (cases "en = []")
    case True
    with ex have pe: "pass_enabled rules = []" and r1: "rules1 = rules"
      using pass_rules_fixed by auto
    from passes_fixed[OF pe, of n] stop True r1 show ?thesis by simp
  next
    case False
    with step have rec: "resolve (self\<lparr>resolver_enabled := resolver_enabled self @ en\<rparr>) rules1 =
        Inr (self', rules', out)" by blast
    from False ex have "disabled_count rules1 < disabled_count rules"
      using pass_rules_disabled_count by auto
    with "1.prems"(2) obtain m where n: "n = Suc m" and m: "disabled_count rules1 \<le> m"
      by (cases n) auto
    from "1.IH"[OF gr sr refl False rec m]
    have "rules' = (pass_rules ^^ m) rules1"
      "out = (resolver_enabled self @ en) @ passes_enabled m rules1" by simp_all
    with ex n show ?thesis by (simp add: funpow_swap1)
  qed
qed

text \<open>Every rule that the call enables has a reason among the rules enabled at the end.\<close>

lemma resolve_flipped_reason:
  "resolve self rules = Inr (self', rules', out) \<Longrightarrow>
   \<forall>i < length rules. rule_enabled (rules ! i) = Inr False \<and> rule_enabled (rules' ! i) = Inr True \<longrightarrow>
     (\<exists>name. carries (rules ! i) setters name \<and>
        (\<exists>r2 \<in> set rules'. rule_enabled r2 = Inr True \<and> carries r2 getters name))"
proof (induction self rules arbitrary: self' rules' out rule: resolve.induct)
  case (1 self rules)
  obtain req rules1 en where
    gr: "get_required_flowbits rules = Inr req"
    and sr: "set_required_flowbits rules req = Inr (rules1, en)"
    and step: "en \<noteq> [] \<longrightarrow>
       resolve (self\<lparr>resolver_enabled := resolver_enabled self @ en\<rparr>) rules1 = Inr (self', rules', out)"
    and stop: "en = [] \<longrightarrow> self' = self \<and> rules' = rules1 \<and> out = resolver_enabled self"
    using resolve_unfold[OF "1.prems"] by blast
  note p = pass_nth[OF sr]
  note req = get_required_flowbits_set[OF gr]
  show ?case
  proof (cases "en = []")
    case True
    with sr pass_empty have "rules1 = rules" by blast
    with True stop show ?thesis by auto
  next
    case False
    with step have rec: "resolve (self\<lparr>resolver_enabled := resolver_enabled self @ en\<rparr>) rules1 =
        Inr (self', rules', out)" by blast
    note ih = "1.IH"[OF gr sr refl False rec]
    note rr = resolve_result[OF rec]
    from rr have len': "length rules' = length rules1"
      and keep: "\<forall>i < length rules1. rules' ! i = rules1 ! i \<or>
        (rule_enabled (rules1 ! i) = Inr False \<and>
         rules' ! i = (rules1 ! i)\<lparr>attr_enabled := Some (PBool True)\<rparr>)"
      by blast+
    show ?thesis
    proof (intro allI impI)
      fix i
      assume i: "i < length rules"
        and fl: "rule_enabled (rules ! i) = Inr False \<and> rule_enabled (rules' ! i) = Inr True"
      show "\<exists>name. carries (rules ! i) setters name \<and>
        (\<exists>r2 \<in> set rules'. rule_enabled r2 = Inr True \<and> carries r2 getters name)"
      proof (cases "\<exists>v \<in> req. carries (rules ! i) setters v")
        case True
        then obtain v where v: "v \<in> req" "carries (rules ! i) setters v" by blast
        from v(1) req obtain r where r: "r \<in> set rules" "rule_enabled r = Inr True"
          "carries r getters v" by blast
        from r(1) obtain j where j: "j < length rules" "rules ! j = r"
          by (auto simp: in_set_conv_nth)
        from p(2)[OF j(1)] j(2) r(2) have "rules1 ! j = r" by simp
        moreover from keep j(1) p(1) have "rules' ! j = rules1 ! j \<or>
          (rule_enabled (rules1 ! j) = Inr False \<and>
           rules' ! j = (rules1 ! j)\<lparr>attr_enabled := Some (PBool True)\<rparr>)" by simp
        ultimately have "rules' ! j = r" using r(2) by auto
        moreover from j(1) p(1) len' have "rules' ! j \<in> set rules'" by simp
        ultimately have "r \<in> set rules'" by simp
        with v(2) r(2,3) show ?thesis by blast
      next
        case False
        with p(2)[OF i] have same: "rules1 ! i = rules ! i" by simp
        from i p(1) have i1: "i < length rules1" by simp
        from fl same have "rule_enabled (rules1 ! i) = Inr False \<and>
            rule_enabled (rules' ! i) = Inr True" by simp
        with ih i1 have "\<exists>name. carries (rules1 ! i) setters name \<and>
            (\<exists>r2 \<in> set rules'. rule_enabled r2 = Inr True \<and> carries r2 getters name)"
          by blast
        with same show ?thesis by simp
      qed
    qed
  qed
qed

text \<open>
  Claim C1, as amended. When \<open>resolve\<close> returns, no rule of the map that is still
  disabled carries a flowbits option with a setter verb for a flowbit name that an
  enabled rule carries with a getter verb; and every rule that the call turned from
  disabled to enabled carries a setter option for a name that a rule enabled at the
  end carries with a getter verb. The map keeps its rules, each one unchanged or a
  disabled rule now enabled; it is the map after as many passes as it has rules.
  The returned list is the resolver's list \<open>enabled\<close>: what it held at the call,
  followed by what the passes record, pass after pass and in the map's order, where
  a pass records a rule once for each of its options that match. The rules so
  recorded are exactly those that the call turned from disabled to enabled.
\<close>

theorem resolve_fixed_point:
  assumes "resolve self rules = Inr (self', rules', out)"
  shows "(\<forall>r \<in> set rules'. \<forall>r2 \<in> set rules'. \<forall>name.
            \<not> (rule_enabled r = Inr False \<and> carries r setters name \<and>
               rule_enabled r2 = Inr True \<and> carries r2 getters name)) \<and>
         (\<forall>i < length rules.
            rule_enabled (rules ! i) = Inr False \<and> rule_enabled (rules' ! i) = Inr True \<longrightarrow>
            (\<exists>name. carries (rules ! i) setters name \<and>
               (\<exists>r2 \<in> set rules'. rule_enabled r2 = Inr True \<and> carries r2 getters name))) \<and>
         length rules' = length rules \<and>
         (\<forall>i < length rules. rules' ! i = rules ! i \<or>
            (rule_enabled (rules ! i) = Inr False \<and>
             rules' ! i = (rules ! i)\<lparr>attr_enabled := Some (PBool True)\<rparr>)) \<and>
         rules' = (pass_rules ^^ length rules) rules \<and>
         out = resolver_enabled self @ passes_enabled (length rules) rules \<and>
         set (passes_enabled (length rules) rules) =
           {rules' ! i | i. i < length rules \<and> rule_enabled (rules ! i) = Inr False \<and>
                           rule_enabled (rules' ! i) = Inr True}"
proof -
  have "disabled_count rules \<le> length rules" by (simp add: disabled_count_def)
  from resolve_passes[OF assms this]
  have ps: "rules' = (pass_rules ^^ length rules) rules"
    "out = resolver_enabled self @ passes_enabled (length rules) rules" by simp_all
  from resolve_result[OF assms] obtain new where
    rr: "length rules' = length rules"
      "\<forall>i < length rules. rules' ! i = rules ! i \<or>
        (rule_enabled (rules ! i) = Inr False \<and>
         rules' ! i = (rules ! i)\<lparr>attr_enabled := Some (PBool True)\<rparr>)"
      "\<forall>r \<in> set rules'. \<forall>r2 \<in> set rules'. \<forall>name.
        \<not> (rule_enabled r = Inr False \<and> carries r setters name \<and>
           rule_enabled r2 = Inr True \<and> carries r2 getters name)"
      "out = resolver_enabled self @ new"
      "set new = {rules' ! i | i. i < length rules \<and> rule_enabled (rules ! i) = Inr False \<and>
                    rule_enabled (rules' ! i) = Inr True}"
    by blast
  from rr(4) ps(2) have "new = passes_enabled (length rules) rules" by simp
  with rr(5) have st: "set (passes_enabled (length rules) rules) =
           {rules' ! i | i. i < length rules \<and> rule_enabled (rules ! i) = Inr False \<and>
                           rule_enabled (rules' ! i) = Inr True}" by simp
  from rr(3) resolve_flipped_reason[OF assms] rr(1) rr(2) ps st show ?thesis by blast
qed

theorem resolve_fixed_point_witness:
  "[(Rule_setitem (Rule_init (PBool False) PNone PNone) ''flowbits'' (PList [Some ''set,foo'']))
           \<lparr>attr_enabled := Some (PBool True)\<rparr>] =
   resolver_enabled FlowbitResolver_init @
   passes_enabled
     (length [Rule_setitem (Rule_init (PBool False) PNone PNone) ''flowbits'' (PList [Some ''set,foo'']),
        Rule_setitem (Rule_init (PBool True) PNone PNone) ''flowbits'' (PList [Some ''isset,foo''])])
     [Rule_setitem (Rule_init (PBool False) PNone PNone) ''flowbits'' (PList [Some ''set,foo'']),
      Rule_setitem (Rule_init (PBool True) PNone PNone) ''flowbits'' (PList [Some ''isset,foo''])]"
  using resolve_fixed_point[OF resolve_example2] by blast

text \<open>
  Claim C1 as stated fails, in two ways. A resolver that has been used returns its
  earlier entries too: the second call below turns no rule and returns one. And a
  rule with two matching options, \<open>set,foo\<close> and \<open>unset,foo\<close>, is listed twice.
\<close>

theorem resolve_returned_list_counterexample:
  "resolve
     \<lparr>resolver_enabled =
        [(Rule_setitem (Rule_init (PBool False) PNone PNone) ''flowbits'' (PList [Some ''set,foo'']))
           \<lparr>attr_enabled := Some (PBool True)\<rparr>]\<rparr>
     [(Rule_setitem (Rule_init (PBool False) PNone PNone) ''flowbits'' (PList [Some ''set,foo'']))
           \<lparr>attr_enabled := Some (PBool True)\<rparr>,
      Rule_setitem (Rule_init (PBool True) PNone PNone) ''flowbits'' (PList [Some ''isset,foo''])] =
   Inr (\<lparr>resolver_enabled =
          [(Rule_setitem (Rule_init (PBool False) PNone PNone) ''flowbits'' (PList [Some ''set,foo'']))
           \<lparr>attr_enabled := Some (PBool True)\<rparr>]\<rparr>,
        [(Rule_setitem (Rule_init (PBool False) PNone PNone) ''flowbits'' (PList [Some ''set,foo'']))
           \<lparr>attr_enabled := Some (PBool True)\<rparr>,
         Rule_setitem (Rule_init (PBool True) PNone PNone) ''flowbits'' (PList [Some ''isset,foo''])],
        [(Rule_setitem (Rule_init (PBool False) PNone PNone) ''flowbits'' (PList [Some ''set,foo'']))
           \<lparr>attr_enabled := Some (PBool True)\<rparr>]) \<and>
   resolve FlowbitResolver_init
     [Rule_setitem (Rule_init (PBool False) PNone PNone) ''flowbits''
        (PList [Some ''set,foo'', Some ''unset,foo'']),
      Rule_setitem (Rule_init (PBool True) PNone PNone) ''flowbits'' (PList [Some ''isset,foo''])] =
   Inr (\<lparr>resolver_enabled =
          [(Rule_setitem (Rule_init (PBool False) PNone PNone) ''flowbits''
              (PList [Some ''set,foo'', Some ''unset,foo'']))\<lparr>attr_enabled := Some (PBool True)\<rparr>,
           (Rule_setitem (Rule_init (PBool False) PNone PNone) ''flowbits''
              (PList [Some ''set,foo'', Some ''unset,foo'']))\<lparr>attr_enabled := Some (PBool True)\<rparr>]\<rparr>,
        [(Rule_setitem (Rule_init (PBool False) PNone PNone) ''flowbits''
            (PList [Some ''set,foo'', Some ''unset,foo'']))\<lparr>attr_enabled := Some (PBool True)\<rparr>,
         Rule_setitem (Rule_init (PBool True) PNone PNone) ''flowbits'' (PList [Some ''isset,foo''])],
        [(Rule_setitem (Rule_init (PBool False) PNone PNone) ''flowbits''
            (PList [Some ''set,foo'', Some ''unset,foo'']))\<lparr>attr_enabled := Some (PBool True)\<rparr>,
         (Rule_setitem (Rule_init (PBool False) PNone PNone) ''flowbits''
            (PList [Some ''set,foo'', Some ''unset,foo'']))\<lparr>attr_enabled := Some (PBool True)\<rparr>])"
  by code_simp

section \<open>The rule parser\<close>

lemma attrs_setitem [simp]:
  "attr_enabled (Rule_setitem r k v) = attr_enabled r"
  "attr_raw (Rule_setitem r k v) = attr_raw r"
  by (simp_all add: Rule_setitem_def)

lemma Rule_append_getitem:
  "Rule_append r key v = Inr r' \<Longrightarrow> k \<noteq> key \<Longrightarrow> Rule_getitem r' k = Rule_getitem r k"
  by (auto simp: Rule_append_def getitem_setitem split: option.splits pyval.splits)

lemma Rule_append_attrs:
  "Rule_append r key v = Inr r' \<Longrightarrow> attr_enabled r' = attr_enabled r \<and> attr_raw r' = attr_raw r"
  by (auto simp: Rule_append_def split: option.splits pyval.splits)

lemma Rule_append_keys:
  "Rule_append r key v = Inr r' \<Longrightarrow> Rule_getitem r k \<noteq> None \<Longrightarrow> Rule_getitem r' k \<noteq> None"
  by (auto simp: Rule_append_def getitem_setitem split: option.splits pyval.splits)

lemma store_option_getitem:
  assumes "store_option name val r = Inr r'"
    and "k \<noteq> name" "k \<noteq> ''noalert''" "k \<noteq> ''references''"
  shows "Rule_getitem r' k = Rule_getitem r k"
  using assms
  unfolding store_option_def Let_def
  by (auto simp: getitem_setitem dest: Rule_append_getitem
      split: if_splits option.splits sum.splits pyval.splits)

lemma store_option_named:
  assumes "store_option name val r = Inr r'"
    and "name \<noteq> ''noalert''" "name \<noteq> ''reference''" "name \<noteq> ''flowbits''"
      "name \<noteq> ''metadata''" "name \<noteq> ''msg''" "name \<noteq> ''gid''" "name \<noteq> ''sid''" "name \<noteq> ''rev''"
  shows "Rule_getitem r' name = Some (pystr val)"
  using assms
  unfolding store_option_def Let_def
  by (auto simp: getitem_setitem split: if_splits)

lemma store_option_sid:
  assumes "store_option ''sid'' val r = Inr r'"
  shows "\<exists>n. Rule_getitem r' ''sid'' = Some (PInt n)"
  using assms
  unfolding store_option_def Let_def
  by (auto simp: getitem_setitem split: if_splits option.splits)

lemma store_option_attrs:
  assumes "store_option name val r = Inr r'"
  shows "attr_enabled r' = attr_enabled r \<and> attr_raw r' = attr_raw r"
  using assms
  unfolding store_option_def Let_def
  by (auto dest: Rule_append_attrs
      split: if_splits option.splits sum.splits pyval.splits)

lemma store_option_keys:
  assumes "store_option name val r = Inr r'" and "Rule_getitem r k \<noteq> None"
  shows "Rule_getitem r' k \<noteq> None"
  using assms
  unfolding store_option_def Let_def
  by (auto simp: getitem_setitem dest: Rule_append_keys
      split: if_splits option.splits sum.splits pyval.splits)


lemma apply_option_getitem:
  assumes "apply_option option r = Inr r'"
    and "k \<noteq> fst (split_option option)" "k \<noteq> ''noalert''" "k \<noteq> ''references''"
      "k \<noteq> ''features''"
  shows "Rule_getitem r' k = Rule_getitem r k"
proof -
  obtain name val where sp: "split_option option = (name, val)" by (cases "split_option option")
  with assms(1) obtain r1 where st: "store_option name val r = Inr r1"
    and fin: "(if prefix ''ja3'' name then Rule_append r1 ''features'' (Some ''ja3'') else Inr r1) = Inr r'"
    by (auto simp: apply_option_def split: sum.splits)
  from fin assms(5) have "Rule_getitem r' k = Rule_getitem r1 k"
    by (auto dest: Rule_append_getitem split: if_splits)
  with store_option_getitem[OF st] assms(2-4) sp show ?thesis by simp
qed

lemma apply_option_sid:
  assumes "apply_option option r = Inr r'"
    and "\<exists>v. Rule_getitem r ''sid'' = Some v \<and> (v = PNone \<or> (\<exists>n. v = PInt n))"
  shows "\<exists>v. Rule_getitem r' ''sid'' = Some v \<and> (v = PNone \<or> (\<exists>n. v = PInt n))"
proof -
  obtain name val where sp: "split_option option = (name, val)" by (cases "split_option option")
  with assms(1) obtain r1 where st: "store_option name val r = Inr r1"
    and fin: "(if prefix ''ja3'' name then Rule_append r1 ''features'' (Some ''ja3'') else Inr r1) = Inr r'"
    by (auto simp: apply_option_def split: sum.splits)
  from fin have e: "Rule_getitem r' ''sid'' = Rule_getitem r1 ''sid''"
    by (auto dest!: Rule_append_getitem[where k = "''sid''"] split: if_splits)
  show ?thesis
  proof (cases "name = ''sid''")
    case True
    with st have "store_option ''sid'' val r = Inr r1" by simp
    from store_option_sid[OF this] e show ?thesis by auto
  next
    case False
    with store_option_getitem[OF st, of "''sid''"] have "Rule_getitem r1 ''sid'' = Rule_getitem r ''sid''"
      by simp
    with e assms(2) show ?thesis by simp
  qed
qed

lemma apply_option_attrs:
  assumes "apply_option option r = Inr r'"
  shows "attr_enabled r' = attr_enabled r \<and> attr_raw r' = attr_raw r"
proof -
  obtain name val where sp: "split_option option = (name, val)" by (cases "split_option option")
  with assms(1) obtain r1 where st: "store_option name val r = Inr r1"
    and fin: "(if prefix ''ja3'' name then Rule_append r1 ''features'' (Some ''ja3'') else Inr r1) = Inr r'"
    by (auto simp: apply_option_def split: sum.splits)
  from fin have "attr_enabled r' = attr_enabled r1 \<and> attr_raw r' = attr_raw r1"
    by (auto dest: Rule_append_attrs split: if_splits)
  with store_option_attrs[OF st] show ?thesis by simp
qed

lemma apply_option_keys:
  assumes "apply_option option r = Inr r'" and "Rule_getitem r k \<noteq> None"
  shows "Rule_getitem r' k \<noteq> None"
proof -
  obtain name val where sp: "split_option option = (name, val)" by (cases "split_option option")
  with assms(1) obtain r1 where st: "store_option name val r = Inr r1"
    and fin: "(if prefix ''ja3'' name then Rule_append r1 ''features'' (Some ''ja3'') else Inr r1) = Inr r'"
    by (auto simp: apply_option_def split: sum.splits)
  from store_option_keys[OF st assms(2)] fin show ?thesis
    by (auto dest: Rule_append_keys split: if_splits)
qed

lemma py_strip_sublist: "sublist (py_strip s) s"
proof -
  have "suffix (py_lstrip s) s" by (simp add: py_lstrip_def suffix_dropWhile)
  moreover have "prefix (py_rstrip t) t" for t
  proof -
    have "suffix (dropWhile py_isspace (rev t)) (rev t)" by (rule suffix_dropWhile)
    then show ?thesis unfolding py_rstrip_def by (metis suffix_to_prefix rev_rev_ident)
  qed
  ultimately show ?thesis unfolding py_strip_def
    by (meson prefix_imp_sublist suffix_imp_sublist sublist_order.order_trans)
qed

text \<open>
  An invariant of the options loop: a property of the rule that every option taken
  from the text preserves holds when the loop ends.
\<close>

lemma parse_options_invariant:
  assumes "parse_options options rule = Inr rule'"
    and "P rule"
    and "sublist options whole"
    and "\<And>option r r'. sublist option whole \<Longrightarrow> P r \<Longrightarrow> apply_option option r = Inr r' \<Longrightarrow> P r'"
  shows "P rule'"
  using assms(1-3)
proof (induction options rule rule: parse_options.induct)
  case (1 options rule)
  show ?case
  proof (cases "options = []")
    case True
    with "1.prems" show ?thesis by (simp add: parse_options.simps)
  next
    case False
    with "1.prems"(1) obtain index rule1 where fe: "find_opt_end options = Inr index"
      and nn: "\<not> index < 0"
      and ao: "apply_option (py_strip (take (nat index) options)) rule = Inr rule1"
      and rec: "parse_options (py_strip (drop (nat index + 1) options)) rule1 = Inr rule'"
      by (subst (asm) parse_options.simps) (auto split: sum.splits if_splits)
    have s1: "sublist (py_strip (take (nat index) options)) whole"
      using py_strip_sublist "1.prems"(3)
      by (meson sublist_take sublist_order.order_trans)
    have s2: "sublist (py_strip (drop (nat index + 1) options)) whole"
      using py_strip_sublist "1.prems"(3)
      by (meson sublist_drop sublist_order.order_trans)
    from assms(4)[OF s1 "1.prems"(2) ao] have "P rule1" .
    from "1.IH"[OF False fe nn ao rec this s2] show ?thesis .
  qed
qed

lemma header_step_frame:
  assumes "header_step state (rem, a, d, r) = Some (rem', a', d', r')"
    and "k \<notin> {''proto'', ''source_addr'', ''source_port'', ''dest_addr'', ''dest_port''}"
  shows "Rule_getitem r' k = Rule_getitem r k \<and> attr_enabled r' = attr_enabled r \<and>
         attr_raw r' = attr_raw r"
  using assms
  by (auto simp: header_step_def getitem_setitem split: if_splits option.splits)

lemma header_loop_frame:
  assumes "header_loop sts (rem, a, d, r) = Some (rem', a', d', r')"
    and "k \<notin> {''proto'', ''source_addr'', ''source_port'', ''dest_addr'', ''dest_port''}"
  shows "Rule_getitem r' k = Rule_getitem r k \<and> attr_enabled r' = attr_enabled r \<and>
         attr_raw r' = attr_raw r"
  using assms(1)
proof (induction sts arbitrary: rem a d r)
  case Nil
  then show ?case by simp
next
  case (Cons s sts)
  from Cons.prems obtain rem1 a1 d1 r1 where
    st: "header_step s (rem, a, d, r) = Some (rem1, a1, d1, r1)"
    and lp: "header_loop sts (rem1, a1, d1, r1) = Some (rem', a', d', r')"
    by (auto split: option.splits)
  from Cons.IH[OF lp] header_step_frame[OF st assms(2)] show ?case by simp
qed

lemma parse_header_frame:
  assumes "parse_header header r = Some (a, d, r')"
    and "k \<notin> {''proto'', ''source_addr'', ''source_port'', ''dest_addr'', ''dest_port''}"
  shows "Rule_getitem r' k = Rule_getitem r k \<and> attr_enabled r' = attr_enabled r \<and>
         attr_raw r' = attr_raw r"
  using assms
  by (auto simp: parse_header_def dest!: header_loop_frame[where k = k]
      split: if_splits option.splits)

lemma getitem_init:
  "Rule_getitem (Rule_init e a g) ''sid'' = Some PNone"
  "Rule_getitem (Rule_init e a g) ''group'' = Some g"
  "Rule_getitem (Rule_init e a g) ''enabled'' = Some e"
  "Rule_getitem (Rule_init e a g) ''noalert'' = Some (PBool False)"
  "Rule_getitem (Rule_init e a g) ''gid'' = Some (PInt 1)"
  "Rule_getitem (Rule_init e a g) ''msg'' = Some PNone"
  "attr_enabled (Rule_init e a g) = None"
  "attr_raw (Rule_init e a g) = None"
  by (simp_all add: Rule_getitem_def Rule_init_def)

lemma parse_before_options_rule:
  assumes "parse_before_options buf grp = Some (raw, options, rule)"
  shows "\<exists>eg hg. rule_pattern_match (py_strip buf) = Some (eg, hg, options, raw) \<and>
           Rule_getitem rule ''enabled'' = Some (PBool (\<not> eg))"
    and "Rule_getitem rule ''sid'' = Some PNone"
    and "Rule_getitem rule ''group'' = Some grp"
    and "Rule_getitem rule ''noalert'' = Some (PBool False)"
    and "attr_enabled rule = None" and "attr_raw rule = None"
    and "Rule_getitem rule ''msg'' \<noteq> None"
proof -
  from assms obtain eg hg action direction rule1 where
    m: "rule_pattern_match (py_strip buf) = Some (eg, hg, options, raw)"
    and ph: "parse_header (py_strip hg) (Rule_init (PBool (\<not> eg)) PNone grp) =
              Some (action, direction, rule1)"
    and r: "rule = Rule_setitem (Rule_setitem (Rule_setitem rule1 ''action'' (PStr action))
              ''direction'' (pystr direction)) ''header'' (PStr (py_strip hg))"
    by (auto simp: parse_before_options_def Let_def split: option.splits if_splits)
  note f = parse_header_frame[OF ph]
  from f[of "''enabled''"] r m
  show "\<exists>eg hg. rule_pattern_match (py_strip buf) = Some (eg, hg, options, raw) \<and>
           Rule_getitem rule ''enabled'' = Some (PBool (\<not> eg))"
    by (simp add: getitem_setitem getitem_init)
  from f[of "''sid''"] r show "Rule_getitem rule ''sid'' = Some PNone"
    by (simp add: getitem_setitem getitem_init)
  from f[of "''group''"] r show "Rule_getitem rule ''group'' = Some grp"
    by (simp add: getitem_setitem getitem_init)
  from f[of "''noalert''"] r show "Rule_getitem rule ''noalert'' = Some (PBool False)"
    by (simp add: getitem_setitem getitem_init)
  from f[of "''sid''"] r show "attr_enabled rule = None" "attr_raw rule = None"
    by (simp_all add: getitem_init)
  from f[of "''msg''"] r show "Rule_getitem rule ''msg'' \<noteq> None"
    by (simp add: getitem_setitem getitem_init)
qed

lemma parse_options_keys:
  assumes "parse_options options rule = Inr rule'" and "Rule_getitem rule k \<noteq> None"
  shows "Rule_getitem rule' k \<noteq> None"
proof (rule parse_options_invariant[OF assms(1), where whole = options
      and P = "\<lambda>r. Rule_getitem r k \<noteq> None"])
  show "Rule_getitem rule k \<noteq> None" by (rule assms(2))
  show "sublist options options" by simp
  show "Rule_getitem r' k \<noteq> None"
    if "apply_option option r = Inr r'" "Rule_getitem r k \<noteq> None" for option r r'
    using apply_option_keys[OF that] .
qed

lemma parse_options_sid:
  assumes "parse_options options rule = Inr rule'"
    and "Rule_getitem rule ''sid'' = Some PNone"
  shows "\<exists>v. Rule_getitem rule' ''sid'' = Some v \<and> (v = PNone \<or> (\<exists>n. v = PInt n))"
proof (rule parse_options_invariant[OF assms(1), where whole = options
      and P = "\<lambda>r. \<exists>v. Rule_getitem r ''sid'' = Some v \<and> (v = PNone \<or> (\<exists>n. v = PInt n))"])
  show "\<exists>v. Rule_getitem rule ''sid'' = Some v \<and> (v = PNone \<or> (\<exists>n. v = PInt n))"
    using assms(2) by simp
  show "sublist options options" by simp
  show "\<exists>v. Rule_getitem r' ''sid'' = Some v \<and> (v = PNone \<or> (\<exists>n. v = PInt n))"
    if "apply_option option r = Inr r'"
      "\<exists>v. Rule_getitem r ''sid'' = Some v \<and> (v = PNone \<or> (\<exists>n. v = PInt n))"
    for option r r'
    using apply_option_sid[OF that] .
qed

lemma parse_finish_sid:
  assumes "Rule_getitem rule ''sid'' = Some v" "v = PNone \<or> (\<exists>n. v = PInt n)"
    and "Rule_getitem rule ''msg'' \<noteq> None"
  shows "(parse_finish raw rule = Inl BadSidError \<longleftrightarrow> v = PNone \<or> v = PInt 0) \<and>
         (\<forall>r. parse_finish raw rule = Inr (Some r) \<longrightarrow>
            (\<exists>n. n \<noteq> 0 \<and> Rule_getitem r ''sid'' = Some (PInt n)))"
  using assms
  by (auto simp: parse_finish_def Let_def getitem_setitem split: option.splits)

text \<open>
  Claim C6, as amended. For a line that the pattern accepts with a recognised action
  and whose options loop runs to its end, \<open>parse\<close> raises \<open>BadSidError\<close>
  exactly when the options leave \<open>sid\<close> at \<open>None\<close> or at 0; and every record
  that \<open>parse\<close> returns has an integer \<open>sid\<close> other than 0 (which may be
  negative).
\<close>

theorem parse_bad_sid:
  "(\<forall>raw options rule rule1.
      parse_before_options buf grp = Some (raw, options, rule) \<longrightarrow>
      parse_options options rule = Inr rule1 \<longrightarrow>
      (parse buf grp = Inl BadSidError \<longleftrightarrow>
         Rule_getitem rule1 ''sid'' = Some PNone \<or> Rule_getitem rule1 ''sid'' = Some (PInt 0))) \<and>
   (\<forall>r. parse buf grp = Inr (Some r) \<longrightarrow>
      (\<exists>n. n \<noteq> 0 \<and> Rule_getitem r ''sid'' = Some (PInt n)))"
proof (intro conjI allI impI)
  fix raw options rule rule1
  assume b: "parse_before_options buf grp = Some (raw, options, rule)"
    and o: "parse_options options rule = Inr rule1"
  from parse_options_sid[OF o parse_before_options_rule(2)[OF b]] obtain v where
    v: "Rule_getitem rule1 ''sid'' = Some v" "v = PNone \<or> (\<exists>n. v = PInt n)" by blast
  from b o have "parse buf grp = parse_finish raw rule1" by (simp add: parse_def)
  with parse_finish_sid[OF v parse_options_keys[OF o parse_before_options_rule(7)[OF b]], of raw] v(1)
  show "parse buf grp = Inl BadSidError \<longleftrightarrow>
         Rule_getitem rule1 ''sid'' = Some PNone \<or> Rule_getitem rule1 ''sid'' = Some (PInt 0)"
    by simp
next
  fix r
  assume p: "parse buf grp = Inr (Some r)"
  then obtain raw options rule rule1 where
    b: "parse_before_options buf grp = Some (raw, options, rule)"
    and o: "parse_options options rule = Inr rule1"
    and f: "parse_finish raw rule1 = Inr (Some r)"
    by (auto simp: parse_def split: option.splits sum.splits)
  from parse_options_sid[OF o parse_before_options_rule(2)[OF b]] obtain v where
    v: "Rule_getitem rule1 ''sid'' = Some v" "v = PNone \<or> (\<exists>n. v = PInt n)" by blast
  from parse_finish_sid[OF v parse_options_keys[OF o parse_before_options_rule(7)[OF b]], of raw] f
  show "\<exists>n. n \<noteq> 0 \<and> Rule_getitem r ''sid'' = Some (PInt n)" by blast
qed

lemma sid0_before:
  "parse_before_options ''alert (sid:0;)'' PNone =
     Some (''alert (sid:0;)'', ''sid:0;'',
           Rule_setitem (Rule_setitem (Rule_setitem (Rule_init (PBool True) PNone PNone)
             ''action'' (PStr ''alert'')) ''direction'' PNone) ''header'' (PStr ''alert''))"
  by code_simp

lemma sid0_options:
  "parse_options ''sid:0;''
     (Rule_setitem (Rule_setitem (Rule_setitem (Rule_init (PBool True) PNone PNone)
        ''action'' (PStr ''alert'')) ''direction'' PNone) ''header'' (PStr ''alert'')) =
   Inr (Rule_setitem (Rule_setitem (Rule_setitem (Rule_setitem (Rule_init (PBool True) PNone PNone)
        ''action'' (PStr ''alert'')) ''direction'' PNone) ''header'' (PStr ''alert''))
        ''sid'' (PInt 0))"
  by code_simp

lemma sid7_parse:
  "parse ''alert (sid:7;)'' PNone =
   Inr (Some (Rule_setitem (Rule_setitem (Rule_setitem (Rule_setitem (Rule_setitem (Rule_setitem
        (Rule_init (PBool True) PNone PNone)
        ''action'' (PStr ''alert'')) ''direction'' PNone) ''header'' (PStr ''alert''))
        ''sid'' (PInt 7)) ''msg'' (PStr [])) ''raw'' (PStr ''alert (sid:7;)'')))"
  by code_simp

theorem parse_bad_sid_witness:
  "parse ''alert (sid:0;)'' PNone = Inl BadSidError \<and>
   (\<exists>n. n \<noteq> 0 \<and>
      Rule_getitem (Rule_setitem (Rule_setitem (Rule_setitem (Rule_setitem (Rule_setitem (Rule_setitem
        (Rule_init (PBool True) PNone PNone)
        ''action'' (PStr ''alert'')) ''direction'' PNone) ''header'' (PStr ''alert''))
        ''sid'' (PInt 7)) ''msg'' (PStr [])) ''raw'' (PStr ''alert (sid:7;)'')) ''sid'' = Some (PInt n))"
proof
  have "Rule_getitem (Rule_setitem (Rule_setitem (Rule_setitem (Rule_setitem (Rule_init (PBool True) PNone PNone)
        ''action'' (PStr ''alert'')) ''direction'' PNone) ''header'' (PStr ''alert''))
        ''sid'' (PInt 0)) ''sid'' = Some (PInt 0)"
    by (simp add: getitem_setitem)
  with parse_bad_sid[of "''alert (sid:0;)''" PNone, THEN conjunct1, rule_format,
      OF sid0_before sid0_options]
  show "parse ''alert (sid:0;)'' PNone = Inl BadSidError" by simp
next
  from parse_bad_sid[of "''alert (sid:7;)''" PNone, THEN conjunct2, rule_format, OF sid7_parse]
  show "\<exists>n. n \<noteq> 0 \<and>
      Rule_getitem (Rule_setitem (Rule_setitem (Rule_setitem (Rule_setitem (Rule_setitem (Rule_setitem
        (Rule_init (PBool True) PNone PNone)
        ''action'' (PStr ''alert'')) ''direction'' PNone) ''header'' (PStr ''alert''))
        ''sid'' (PInt 7)) ''msg'' (PStr [])) ''raw'' (PStr ''alert (sid:7;)'')) ''sid'' = Some (PInt n)" .
qed

text \<open>
  Claim C6 as stated fails: \<open>parse\<close> returns a record for \<open>sid:-1\<close>, whose sid
  is not positive.
\<close>

theorem parse_negative_sid:
  "(case parse ''alert (sid:-1;)'' PNone of
      Inl e \<Rightarrow> None
    | Inr None \<Rightarrow> None
    | Inr (Some r) \<Rightarrow> Rule_getitem r ''sid'') = Some (PInt (- 1))"
  by code_simp

text \<open>
  Claim C2: the code at two inputs whose remaining options hold no unescaped
  semicolon. In \<open>msg:foo\;\<close> the only semicolon is escaped; \<open>find_opt_end\<close>
  steps over it, finds no other, and returns 9, the length of the text, so that
  \<open>parse\<close> returns a rule with that message instead of raising
  \<open>NoEndOfOptionError\<close>. On the options \<open>a\<close> the index \<open>options[-2]\<close> is
  out of range and \<open>parse\<close> raises \<open>IndexError\<close>.
\<close>

theorem parse_escaped_last_semicolon:
  "find_opt_end (''msg:foo'' @ [ch_backslash] @ '';'') = Inr 9 \<and>
   (case parse (''alert (sid:1; msg:foo'' @ [ch_backslash] @ '';)'') PNone of
      Inl e \<Rightarrow> None
    | Inr None \<Rightarrow> None
    | Inr (Some r) \<Rightarrow> Rule_getitem r ''msg'') = Some (PStr (''foo'' @ [ch_backslash] @ '';'')) \<and>
   parse ''alert (a)'' PNone = Inl IndexError"
  by code_simp

section \<open>The modify filter\<close>

lemma Rule_format_rule:
  assumes "Rule_format rule = Inr (line, rule1)"
  shows "items rule1 = items rule \<and> attr_enabled rule1 = attr_enabled rule"
    and "Rule_getattr rule ''noalert'' = Some (PBool False) \<or>
         (\<exists>raw. Rule_getattr rule ''raw'' = Some (PStr raw) \<and> py_contains ''noalert;'' raw) \<Longrightarrow>
         rule1 = rule"
  using assms
  by (auto simp: Rule_format_def split: option.splits sum.splits if_splits pyval.splits)

text \<open>
  Claim C4, as amended. Let \<open>format\<close> render the rule and the substitution yield
  a text. If \<open>parse\<close> returns \<open>None\<close> on that text, \<open>run\<close> returns the rule it
  was given (provided the rule has the \<open>gid\<close> and \<open>sid\<close> that the log message
  reads); if \<open>parse\<close> raises, \<open>run\<close> raises the same exception. The returned
  rule is the one passed in up to the \<open>raw\<close> attribute that \<open>format\<close> assigns
  when it injects \<open>noalert;\<close>: its dictionary and its \<open>enabled\<close> attribute are
  untouched, and it is the very same rule when no injection was pending.
\<close>

theorem ModifyRuleFilter_run_reparse:
  assumes "Rule_format rule = Inr (line, rule1)"
    and "sub line = Inr modified"
    and "Rule_getattr rule1 ''group'' = Some g"
  shows "(parse modified g = Inr None \<longrightarrow> (\<exists>s. Rule_idstr rule1 = Inr s) \<longrightarrow>
            ModifyRuleFilter_run sub rule = Inr rule1) \<and>
         (\<forall>e. parse modified g = Inl e \<longrightarrow> ModifyRuleFilter_run sub rule = Inl e) \<and>
         items rule1 = items rule \<and> attr_enabled rule1 = attr_enabled rule \<and>
         (Rule_getattr rule ''noalert'' = Some (PBool False) \<or>
          (\<exists>raw. Rule_getattr rule ''raw'' = Some (PStr raw) \<and> py_contains ''noalert;'' raw) \<longrightarrow>
          rule1 = rule)"
  using assms Rule_format_rule[OF assms(1)]
  by (auto simp: ModifyRuleFilter_run_def)

lemma modify_example_format:
  "Rule_format (Rule_setitem (Rule_setitem (Rule_init (PBool True) PNone PNone)
        ''sid'' (PInt 1)) ''raw'' (PStr ''alert (sid:1;)'')) =
   Inr (''alert (sid:1;)'',
        Rule_setitem (Rule_setitem (Rule_init (PBool True) PNone PNone)
        ''sid'' (PInt 1)) ''raw'' (PStr ''alert (sid:1;)''))"
  by code_simp

lemma modify_example_group:
  "Rule_getattr (Rule_setitem (Rule_setitem (Rule_init (PBool True) PNone PNone)
        ''sid'' (PInt 1)) ''raw'' (PStr ''alert (sid:1;)'')) ''group'' = Some PNone"
  by code_simp

lemma modify_example_idstr:
  "Rule_idstr (Rule_setitem (Rule_setitem (Rule_init (PBool True) PNone PNone)
        ''sid'' (PInt 1)) ''raw'' (PStr ''alert (sid:1;)'')) = Inr ''[1:1]''"
  by code_simp

lemma modify_example_parse: "parse ''alert sid:1;'' PNone = Inr None"
  by code_simp

theorem ModifyRuleFilter_run_reparse_witness:
  "ModifyRuleFilter_run (\<lambda>t. Inr ''alert sid:1;'')
     (Rule_setitem (Rule_setitem (Rule_init (PBool True) PNone PNone)
        ''sid'' (PInt 1)) ''raw'' (PStr ''alert (sid:1;)'')) =
   Inr (Rule_setitem (Rule_setitem (Rule_init (PBool True) PNone PNone)
        ''sid'' (PInt 1)) ''raw'' (PStr ''alert (sid:1;)''))"
  using ModifyRuleFilter_run_reparse[where sub = "\<lambda>t. Inr ''alert sid:1;''",
      OF modify_example_format refl modify_example_group]
    modify_example_parse modify_example_idstr
  by simp

text \<open>
  Claim C4 as stated fails: a substitution that turns \<open>alert (sid:1;)\<close> into
  \<open>alert (msg:x;)\<close> yields a text that the parser rejects with \<open>BadSidError\<close>,
  and \<open>run\<close> raises that error instead of returning the original rule.
\<close>

theorem ModifyRuleFilter_run_raises:
  "parse ''alert (msg:x;)'' PNone = Inl BadSidError \<and>
   ModifyRuleFilter_run (\<lambda>t. Inr ''alert (msg:x;)'')
     (Rule_setitem (Rule_setitem (Rule_init (PBool True) PNone PNone)
        ''sid'' (PInt 1)) ''raw'' (PStr ''alert (sid:1;)'')) = Inl BadSidError"
  by code_simp

section \<open>Formatting a parsed rule\<close>

lemma py_rstrip_ends:
  "py_rstrip s \<noteq> [] \<Longrightarrow> \<not> py_isspace (last (py_rstrip s))"
proof -
  assume a: "py_rstrip s \<noteq> []"
  then have ne: "dropWhile py_isspace (rev s) \<noteq> []" by (simp add: py_rstrip_def)
  then have "\<not> py_isspace (hd (dropWhile py_isspace (rev s)))" by (rule hd_dropWhile)
  with ne show ?thesis by (simp add: py_rstrip_def last_rev)
qed

lemma py_rstrip_id: "s \<noteq> [] \<Longrightarrow> \<not> py_isspace (last s) \<Longrightarrow> py_rstrip s = s"
proof -
  assume a: "s \<noteq> []" "\<not> py_isspace (last s)"
  then have "\<not> py_isspace (hd (rev s))" by (simp add: hd_rev)
  with a(1) have "dropWhile py_isspace (rev s) = rev s" by (cases "rev s") auto
  then show ?thesis by (simp add: py_rstrip_def)
qed

lemma py_rstrip_prefix: "prefix (py_rstrip s) s"
proof -
  have "suffix (dropWhile py_isspace (rev s)) (rev s)" by (rule suffix_dropWhile)
  then show ?thesis unfolding py_rstrip_def by (metis suffix_to_prefix rev_rev_ident)
qed

lemma py_strip_ends:
  assumes "py_strip s \<noteq> []"
  shows "\<not> py_isspace (hd (py_strip s))" and "\<not> py_isspace (last (py_strip s))"
proof -
  let ?l = "py_lstrip s"
  from assms have ne: "py_rstrip ?l \<noteq> []" by (simp add: py_strip_def)
  then have lne: "?l \<noteq> []" by (auto simp: py_rstrip_def)
  then have "\<not> py_isspace (hd ?l)" unfolding py_lstrip_def by (rule hd_dropWhile)
  moreover from py_rstrip_prefix[of ?l] ne have "hd (py_rstrip ?l) = hd ?l"
    by (metis hd_append2 prefixE)
  ultimately show "\<not> py_isspace (hd (py_strip s))" by (simp add: py_strip_def)
  from py_rstrip_ends[OF ne] show "\<not> py_isspace (last (py_strip s))" by (simp add: py_strip_def)
qed

lemma py_strip_id:
  assumes "s \<noteq> []" "\<not> py_isspace (hd s)" "\<not> py_isspace (last s)"
  shows "py_strip s = s"
proof -
  from assms(1,2) have "py_lstrip s = s" by (cases s) (auto simp: py_lstrip_def)
  with py_rstrip_id[OF assms(1,3)] show ?thesis by (simp add: py_strip_def)
qed

lemma py_strip_idem: "py_strip (py_strip s) = py_strip s"
proof (cases "py_strip s = []")
  case True
  have "py_strip [] = []" by (simp add: py_strip_def py_lstrip_def py_rstrip_def)
  with True show ?thesis by (simp only:)
next
  case False
  from py_strip_id[OF False py_strip_ends[OF False]] show ?thesis .
qed

lemma is_space_newline: "py_isspace ch_newline"
  by (simp add: py_isspace_def ch_newline_def)

text \<open>
  On a text without surrounding whitespace that does not begin with a comment
  mark, the group raw of a match is the whole text.
\<close>

lemma rule_pattern_match_raw:
  assumes m: "rule_pattern_match buf = Some (eg, hg, opts, raw)"
    and h: "\<not> py_isspace (hd buf)" "hd buf \<noteq> ch_hash"
    and l: "\<not> py_isspace (last buf)"
  shows "raw = buf" and "\<not> eg"
proof -
  from m have ne: "buf \<noteq> []"
    by (auto simp: rule_pattern_match_def Let_def split: if_splits)
  with h have lead: "takeWhile is_lead buf = []" "dropWhile is_lead buf = buf"
    by (cases buf; simp add: is_lead_def)+
  from ne h(2) have hashes: "takeWhile (\<lambda>c. c = ch_hash) buf = []"
    by (cases buf) auto
  let ?hdr = "takeWhile not_paren buf"
  let ?after = "dropWhile not_paren buf"
  from m lead hashes obtain body where
    a: "?after = ch_lparen # body" and t: "match_options_tail body = Some opts"
    and raw: "raw = ?hdr @ [ch_lparen] @ opts @ [ch_rparen]" and eg: "\<not> eg"
    by (auto simp: rule_pattern_match_def Let_def split: if_splits list.splits option.splits)
  have buf: "buf = ?hdr @ ch_lparen # body" using a takeWhile_dropWhile_id[of not_paren buf] by simp
  have "body \<noteq> []" using t by (auto simp: match_options_tail_def split: if_splits)
  with buf have lb: "last buf = last body"
    by (metis last_appendR last_ConsR list.distinct(1))
  from l lb is_space_newline have "last body \<noteq> ch_newline" by auto
  with t have "body = opts @ [ch_rparen]"
    by (auto simp: match_options_tail_def split: if_splits) (metis append_butlast_last_id)
  with buf raw show "raw = buf" by simp
  from eg show "\<not> eg" .
qed

lemma parse_options_attrs:
  assumes "parse_options options rule = Inr rule'"
    and "attr_enabled rule = None \<and> attr_raw rule = None"
  shows "attr_enabled rule' = None \<and> attr_raw rule' = None"
proof (rule parse_options_invariant[OF assms(1), where whole = options
      and P = "\<lambda>r. attr_enabled r = None \<and> attr_raw r = None"])
  show "attr_enabled rule = None \<and> attr_raw rule = None" by (rule assms(2))
  show "sublist options options" by simp
  show "attr_enabled r' = None \<and> attr_raw r' = None"
    if "apply_option option r = Inr r'" "attr_enabled r = None \<and> attr_raw r = None" for option r r'
    using apply_option_attrs[OF that(1)] that(2) by simp
qed

text \<open>What a record that \<open>parse\<close> returns holds.\<close>

lemma parse_result:
  assumes "parse line grp = Inr (Some r)"
  shows "\<exists>eg hg opts raw. rule_pattern_match (py_strip line) = Some (eg, hg, opts, raw) \<and>
           Rule_getitem r ''raw'' = Some (PStr (py_strip raw))"
    and "attr_enabled r = None" and "attr_raw r = None"
    and "Rule_getitem r ''noalert'' \<noteq> None"
proof -
  from assms obtain raw options rule rule1 where
    b: "parse_before_options line grp = Some (raw, options, rule)"
    and o: "parse_options options rule = Inr rule1"
    and f: "parse_finish raw rule1 = Inr (Some r)"
    by (auto simp: parse_def split: option.splits sum.splits)
  note pb = parse_before_options_rule[OF b]
  from parse_options_attrs[OF o] pb(5,6)
  have at: "attr_enabled rule1 = None" "attr_raw rule1 = None" by simp_all
  from parse_options_keys[OF o, of "''noalert''"] pb(4)
  have na: "Rule_getitem rule1 ''noalert'' \<noteq> None" by simp
  from f obtain rule2 where r: "r = Rule_setitem rule2 ''raw'' (PStr (py_strip raw))"
    and r2: "rule2 = rule1 \<or> rule2 = Rule_setitem rule1 ''msg'' (PStr [])"
    by (auto simp: parse_finish_def Let_def split: option.splits if_splits)
  from pb(1) r show "\<exists>eg hg opts raw. rule_pattern_match (py_strip line) = Some (eg, hg, opts, raw) \<and>
           Rule_getitem r ''raw'' = Some (PStr (py_strip raw))"
    by (auto simp: getitem_setitem)
  from r r2 at show "attr_enabled r = None" "attr_raw r = None" by auto
  from r r2 na show "Rule_getitem r ''noalert'' \<noteq> None" by (auto simp: getitem_setitem)
qed

text \<open>
  Claim C5, as amended. If \<open>parse\<close> returns a record for a line, the record is
  enabled, no \<open>noalert\<close> injection is pending, and the line does not begin with a
  comment mark once its surrounding whitespace is removed, then \<open>format\<close> returns
  the line without its surrounding whitespace, and leaves the record as it is.
\<close>

theorem format_parse_roundtrip:
  assumes p: "parse line grp = Inr (Some r)"
    and en: "rule_enabled r = Inr True"
    and na: "Rule_getitem r ''noalert'' = Some (PBool False) \<or>
             py_contains ''noalert;'' (py_strip line)"
    and nh: "\<not> prefix [ch_hash] (py_strip line)"
  shows "Rule_format r = Inr (py_strip line, r)"
proof -
  note pr = parse_result[OF p]
  from pr(1) obtain eg hg opts raw where
    m: "rule_pattern_match (py_strip line) = Some (eg, hg, opts, raw)"
    and rw: "Rule_getitem r ''raw'' = Some (PStr (py_strip raw))" by blast
  from m have ne: "py_strip line \<noteq> []"
    by (auto simp: rule_pattern_match_def Let_def split: if_splits)
  from nh ne have "hd (py_strip line) \<noteq> ch_hash" by (cases "py_strip line") auto
  from rule_pattern_match_raw(1)[OF m py_strip_ends(1)[OF ne] this py_strip_ends(2)[OF ne]]
  have "raw = py_strip line" .
  with rw py_strip_idem have raw: "Rule_getitem r ''raw'' = Some (PStr (py_strip line))" by simp
  from pr(4) obtain v where v: "Rule_getitem r ''noalert'' = Some v" by blast
  from en pr(2) obtain e where e: "Rule_getitem r ''enabled'' = Some e" "truthy e"
    by (auto simp: rule_enabled_def Rule_getattr_def split: option.splits)
  from na v have c: "\<not> truthy v \<or> py_contains ''noalert;'' (py_strip line)" by auto
  show ?thesis
    using raw v e c pr(2,3)
    by (auto simp: Rule_format_def Rule_getattr_def)
qed

lemma roundtrip_example_parse:
  "parse '' alert (sid:1;)'' PNone =
   Inr (Some (Rule_setitem (Rule_setitem (Rule_setitem (Rule_setitem (Rule_setitem (Rule_setitem
        (Rule_init (PBool True) PNone PNone)
        ''action'' (PStr ''alert'')) ''direction'' PNone) ''header'' (PStr ''alert''))
        ''sid'' (PInt 1)) ''msg'' (PStr [])) ''raw'' (PStr ''alert (sid:1;)'')))"
  by code_simp

lemma roundtrip_example_enabled:
  "rule_enabled (Rule_setitem (Rule_setitem (Rule_setitem (Rule_setitem (Rule_setitem (Rule_setitem
        (Rule_init (PBool True) PNone PNone)
        ''action'' (PStr ''alert'')) ''direction'' PNone) ''header'' (PStr ''alert''))
        ''sid'' (PInt 1)) ''msg'' (PStr [])) ''raw'' (PStr ''alert (sid:1;)'')) = Inr True"
  by code_simp

lemma roundtrip_example_noalert:
  "Rule_getitem (Rule_setitem (Rule_setitem (Rule_setitem (Rule_setitem (Rule_setitem (Rule_setitem
        (Rule_init (PBool True) PNone PNone)
        ''action'' (PStr ''alert'')) ''direction'' PNone) ''header'' (PStr ''alert''))
        ''sid'' (PInt 1)) ''msg'' (PStr [])) ''raw'' (PStr ''alert (sid:1;)'')) ''noalert'' =
   Some (PBool False)"
  by code_simp

lemma roundtrip_example_strip:
  "py_strip '' alert (sid:1;)'' = ''alert (sid:1;)''"
  by code_simp

theorem format_parse_roundtrip_witness:
  "Rule_format (Rule_setitem (Rule_setitem (Rule_setitem (Rule_setitem (Rule_setitem (Rule_setitem
        (Rule_init (PBool True) PNone PNone)
        ''action'' (PStr ''alert'')) ''direction'' PNone) ''header'' (PStr ''alert''))
        ''sid'' (PInt 1)) ''msg'' (PStr [])) ''raw'' (PStr ''alert (sid:1;)'')) =
   Inr (''alert (sid:1;)'',
        Rule_setitem (Rule_setitem (Rule_setitem (Rule_setitem (Rule_setitem (Rule_setitem
        (Rule_init (PBool True) PNone PNone)
        ''action'' (PStr ''alert'')) ''direction'' PNone) ''header'' (PStr ''alert''))
        ''sid'' (PInt 1)) ''msg'' (PStr [])) ''raw'' (PStr ''alert (sid:1;)''))"
proof -
  have nh: "\<not> prefix [ch_hash] (py_strip '' alert (sid:1;)'')"
    by (simp add: roundtrip_example_strip ch_hash_def)
  from format_parse_roundtrip[OF roundtrip_example_parse roundtrip_example_enabled
      disjI1[OF roundtrip_example_noalert] nh]
  show ?thesis by (simp only: roundtrip_example_strip)
qed

text \<open>
  Claim C5 as stated fails. A line that ends in a newline, as the lines of a file do,
  parses to an enabled record that is formatted without the newline. And the
  commented line \<open>#alert (sid:1; enabled:yes;)\<close> parses to a record whose field
  \<open>enabled\<close> the option of that name overwrites with a true value, and which is
  formatted without the comment mark.
\<close>

theorem format_parse_not_identity:
  "(case parse (''alert (sid:1;)'' @ [ch_newline]) PNone of
      Inl e \<Rightarrow> False
    | Inr None \<Rightarrow> False
    | Inr (Some r) \<Rightarrow>
        rule_enabled r = Inr True \<and> Rule_getitem r ''noalert'' = Some (PBool False) \<and>
        (case Rule_format r of
           Inl e \<Rightarrow> False
         | Inr (t, r1) \<Rightarrow> t = ''alert (sid:1;)'' \<and> t \<noteq> ''alert (sid:1;)'' @ [ch_newline])) \<and>
   (case parse ''#alert (sid:1; enabled:yes;)'' PNone of
      Inl e \<Rightarrow> False
    | Inr None \<Rightarrow> False
    | Inr (Some r) \<Rightarrow>
        rule_enabled r = Inr True \<and> Rule_getitem r ''noalert'' = Some (PBool False) \<and>
        (case Rule_format r of
           Inl e \<Rightarrow> False
         | Inr (t, r1) \<Rightarrow> t = ''alert (sid:1; enabled:yes;)''))"
  by code_simp

section \<open>The drop filter and the group\<close>

lemma apply_option_group:
  assumes "apply_option option r = Inr r'"
  shows "Rule_getitem r' ''group'' =
           (if fst (split_option option) = ''group''
            then Some (pystr (snd (split_option option)))
            else Rule_getitem r ''group'')"
proof (cases "fst (split_option option) = ''group''")
  case False
  with apply_option_getitem[OF assms, of "''group''"] show ?thesis by simp
next
  case True
  obtain name val where sp: "split_option option = (name, val)" by (cases "split_option option")
  with True have n: "name = ''group''" by simp
  from assms sp n have st: "store_option ''group'' val r = Inr r'"
    by (auto simp: apply_option_def split: sum.splits)
  from store_option_named[OF st] sp n show ?thesis by simp
qed

lemma parse_options_group_exact:
  "parse_options options rule = Inr rule' \<Longrightarrow>
   Rule_getitem rule' ''group'' =
     (if filter (\<lambda>(name, val). name = ''group'') (option_list options) = []
      then Rule_getitem rule ''group''
      else Some (pystr (last (map snd
             (filter (\<lambda>(name, val). name = ''group'') (option_list options))))))"
proof (induction options rule rule: parse_options.induct)
  case (1 options rule)
  show ?case
  proof (cases "options = []")
    case True
    with "1.prems" show ?thesis by (simp add: parse_options.simps option_list.simps)
  next
    case False
    with "1.prems"(1) obtain index rule1 where fe: "find_opt_end options = Inr index"
      and nn: "\<not> index < 0"
      and ao: "apply_option (py_strip (take (nat index) options)) rule = Inr rule1"
      and rec: "parse_options (py_strip (drop (nat index + 1) options)) rule1 = Inr rule'"
      by (subst (asm) parse_options.simps) (auto split: sum.splits if_splits)
    let ?o = "py_strip (take (nat index) options)"
    let ?rest = "py_strip (drop (nat index + 1) options)"
    from False fe nn have ol: "option_list options = split_option ?o # option_list ?rest"
      by (subst option_list.simps) simp
    note ih = "1.IH"[OF False fe nn ao rec]
    note g1 = apply_option_group[OF ao]
    obtain name val where sp: "split_option ?o = (name, val)" by (cases "split_option ?o")
    show ?thesis
      using ih g1 sp unfolding ol
      by (auto split: if_splits)
  qed
qed

lemma parse_group_exact:
  assumes "parse buf grp = Inr (Some r)"
  shows "Rule_getitem r ''group'' =
           Some (if group_options buf = [] then grp else pystr (last (group_options buf)))"
proof -
  from assms obtain raw options rule rule1 where
    b: "parse_before_options buf grp = Some (raw, options, rule)"
    and o: "parse_options options rule = Inr rule1"
    and f: "parse_finish raw rule1 = Inr (Some r)"
    by (auto simp: parse_def split: option.splits sum.splits)
  note pb = parse_before_options_rule[OF b]
  from pb(1) have oo: "options_of buf = options" by (auto simp: options_of_def)
  from f have "Rule_getitem r ''group'' = Rule_getitem rule1 ''group''"
    by (auto simp: parse_finish_def Let_def getitem_setitem split: option.splits if_splits)
  with parse_options_group_exact[OF o] pb(3) oo show ?thesis
    by (simp add: group_options_def)
qed

lemma py_isword_plain:
  assumes "py_isword c"
  shows "\<not> py_isspace c" and "c \<noteq> ch_hash" and "not_paren c"
  using assms
  by (auto simp: py_isword_def py_isspace_def Let_def ch_hash_def not_paren_def
      ch_lparen_def ch_rparen_def)

lemma py_strip_word:
  assumes "x \<noteq> []" "\<forall>c \<in> set x. py_isword c"
  shows "py_strip (x @ rest) = x @ py_rstrip rest"
proof -
  from assms have h: "\<not> py_isspace (hd x)" and l: "\<not> py_isspace (last x)"
    using py_isword_plain(1) by (simp_all)
  from assms(1) h have ls: "py_lstrip (x @ rest) = x @ rest"
    by (cases x) (auto simp: py_lstrip_def)
  from assms(1) l have dx: "dropWhile py_isspace (rev x) = rev x"
    by (cases "rev x") (auto simp: hd_rev[symmetric])
  have "py_rstrip (x @ rest) = x @ py_rstrip rest"
  proof (cases "\<forall>c \<in> set (rev rest). py_isspace c")
    case True
    then have "dropWhile py_isspace (rev rest) = []" by (simp add: dropWhile_eq_Nil_conv)
    with True dx show ?thesis by (simp add: py_rstrip_def dropWhile_append)
  next
    case False
    then show ?thesis by (auto simp: py_rstrip_def dropWhile_append)
  qed
  with ls show ?thesis by (simp add: py_strip_def)
qed

lemma options_of_word:
  assumes "x \<noteq> []" "\<forall>c \<in> set x. py_isword c"
  shows "options_of (x @ rest) =
           (case dropWhile not_paren (py_rstrip rest) of
              [] \<Rightarrow> []
            | c # body \<Rightarrow>
                if c = ch_lparen
                then (case match_options_tail body of None \<Rightarrow> [] | Some opts \<Rightarrow> opts)
                else [])"
proof -
  let ?t = "py_rstrip rest"
  from assms obtain a x' where x: "x = a # x'" by (cases x) auto
  with assms(2) have a: "\<not> is_lead a" "a \<noteq> ch_hash"
    using py_isword_plain by (auto simp: is_lead_def)
  have np: "\<And>c. c \<in> set x \<Longrightarrow> not_paren c" using assms(2) py_isword_plain(3) by blast
  have tw: "takeWhile not_paren (x @ ?t) = x @ takeWhile not_paren ?t"
    using np by (rule takeWhile_append2)
  have dw: "dropWhile not_paren (x @ ?t) = dropWhile not_paren ?t"
    using np by (rule dropWhile_append2)
  have lead: "takeWhile is_lead (x @ ?t) = []" "dropWhile is_lead (x @ ?t) = x @ ?t"
    "takeWhile (\<lambda>c. c = ch_hash) (x @ ?t) = []"
    using x a by simp_all
  have dwp: "\<exists>c \<in> set ?t. \<not> not_paren c" if "dropWhile not_paren ?t = ch_lparen # b" for b
  proof -
    have "ch_lparen \<in> set (dropWhile not_paren ?t)" using that by simp
    then have "ch_lparen \<in> set ?t" by (rule set_dropWhileD)
    moreover have "\<not> not_paren ch_lparen" by (simp add: not_paren_def)
    ultimately show ?thesis by blast
  qed
  have m: "rule_pattern_match (x @ ?t) =
      (case dropWhile not_paren ?t of
         [] \<Rightarrow> None
       | c # body \<Rightarrow>
           if c = ch_lparen
           then (case match_options_tail body of
                   None \<Rightarrow> None
                 | Some opts \<Rightarrow>
                     Some (False, x @ takeWhile not_paren ?t, opts,
                           (x @ takeWhile not_paren ?t) @ [ch_lparen] @ opts @ [ch_rparen]))
           else None)"
    unfolding rule_pattern_match_def Let_def lead tw dw
    using assms(1) dwp by (simp split: list.splits option.splits)
  show ?thesis
    unfolding options_of_def py_strip_word[OF assms] m
    using dwp by (auto split: list.splits option.splits)
qed

lemma options_of_sub_drop: "options_of (sub_drop raw) = options_of raw"
proof (cases "takeWhile py_isword raw = []")
  case True
  then show ?thesis by (simp add: sub_drop_def)
next
  case False
  let ?w = "takeWhile py_isword raw"
  let ?rest = "dropWhile py_isword raw"
  have w: "\<forall>c \<in> set ?w. py_isword c" by (auto dest: set_takeWhileD)
  have d: "\<forall>c \<in> set ''drop''. py_isword c" by (simp add: py_isword_def)
  have "options_of (''drop'' @ ?rest) = options_of (?w @ ?rest)"
    using options_of_word[OF _ d, of ?rest] options_of_word[OF False w, of ?rest] by simp
  with False show ?thesis by (simp add: sub_drop_def)
qed

text \<open>
  Claim C10, as amended. \<open>DropRuleFilter.run\<close> does not pass the group of its
  input along: its result is the same whatever the input's \<open>group\<close> field holds.
  The group of the returned record is \<open>None\<close> when the raw text has no option
  named \<open>group\<close>, and then the filename matcher and the group matcher return
  \<open>False\<close> on it for every pattern; when the raw text has options named
  \<open>group\<close>, it is the value of the last of them.
\<close>

theorem DropRuleFilter_run_group:
  "DropRuleFilter_run (Rule_setitem rule ''group'' g) = DropRuleFilter_run rule \<and>
   (DropRuleFilter_run rule = Inr d \<longrightarrow>
    Rule_getattr rule ''raw'' = Some (PStr raw) \<longrightarrow>
    Rule_getitem d ''group'' =
      Some (if group_options raw = [] then PNone else pystr (last (group_options raw))) \<and>
    (group_options raw = [] \<longrightarrow>
       FilenameMatcher_match fnmatch pattern d = Inr False \<and>
       GroupMatcher_match fnmatch basename splitext_root pattern d = Inr False))"
proof (intro conjI impI)
  have "Rule_getattr (Rule_setitem rule ''group'' g) ''raw'' = Rule_getattr rule ''raw''"
    "Rule_getattr (Rule_setitem rule ''group'' g) ''enabled'' = Rule_getattr rule ''enabled''"
    by (simp_all add: Rule_getattr_def getitem_setitem)
  then show "DropRuleFilter_run (Rule_setitem rule ''group'' g) = DropRuleFilter_run rule"
    by (simp add: DropRuleFilter_run_def split: option.splits sum.splits pyval.splits)
next
  assume run: "DropRuleFilter_run rule = Inr d"
    and raw: "Rule_getattr rule ''raw'' = Some (PStr raw)"
  from run raw obtain d0 en where
    p: "parse (sub_drop raw) PNone = Inr (Some d0)" and d: "d = d0\<lparr>attr_enabled := Some en\<rparr>"
    by (auto simp: DropRuleFilter_run_def split: sum.splits option.splits)
  have go: "group_options (sub_drop raw) = group_options raw"
    by (simp add: group_options_def options_of_sub_drop)
  from parse_group_exact[OF p] d go
  show g: "Rule_getitem d ''group'' =
      Some (if group_options raw = [] then PNone else pystr (last (group_options raw)))"
    by (simp add: Rule_getitem_def)
  assume "group_options raw = []"
  with g have ga: "Rule_getattr d ''group'' = Some PNone" by (simp add: Rule_getattr_def)
  from ga show "FilenameMatcher_match fnmatch pattern d = Inr False"
    by (simp add: FilenameMatcher_match_def)
  from ga show "GroupMatcher_match fnmatch basename splitext_root pattern d = Inr False"
    by (simp add: GroupMatcher_match_def)
qed

lemma drop_example_run:
  "DropRuleFilter_run (Rule_setitem (Rule_setitem (Rule_setitem (Rule_setitem (Rule_setitem (Rule_setitem
        (Rule_init (PBool True) PNone (PStr ''a.rules''))
        ''action'' (PStr ''alert'')) ''direction'' PNone) ''header'' (PStr ''alert''))
        ''msg'' (PStr ''group'')) ''sid'' (PInt 1)) ''raw'' (PStr ''alert (msg:group; sid:1;)'')) =
   Inr ((Rule_setitem (Rule_setitem (Rule_setitem (Rule_setitem (Rule_setitem (Rule_setitem
        (Rule_init (PBool True) PNone PNone)
        ''action'' (PStr ''drop'')) ''direction'' PNone) ''header'' (PStr ''drop''))
        ''msg'' (PStr ''group'')) ''sid'' (PInt 1)) ''raw'' (PStr ''drop (msg:group; sid:1;)''))
        \<lparr>attr_enabled := Some (PBool True)\<rparr>)"
  by code_simp

lemma drop_example_raw:
  "Rule_getattr (Rule_setitem (Rule_setitem (Rule_setitem (Rule_setitem (Rule_setitem (Rule_setitem
        (Rule_init (PBool True) PNone (PStr ''a.rules''))
        ''action'' (PStr ''alert'')) ''direction'' PNone) ''header'' (PStr ''alert''))
        ''msg'' (PStr ''group'')) ''sid'' (PInt 1)) ''raw'' (PStr ''alert (msg:group; sid:1;)'')) ''raw'' =
   Some (PStr ''alert (msg:group; sid:1;)'')"
  by code_simp

lemma drop_example_no_group: "group_options ''alert (msg:group; sid:1;)'' = []"
  by code_simp

lemma drop_example2_run:
  "DropRuleFilter_run (Rule_setitem (Rule_setitem (Rule_setitem (Rule_setitem (Rule_setitem
        (Rule_setitem (Rule_setitem
        (Rule_init (PBool True) PNone (PStr ''a.rules''))
        ''action'' (PStr ''alert'')) ''direction'' PNone) ''header'' (PStr ''alert''))
        ''sid'' (PInt 1)) ''group'' (PStr ''x'')) ''msg'' (PStr []))
        ''raw'' (PStr ''alert (sid:1; group:x;)'')) =
   Inr ((Rule_setitem (Rule_setitem (Rule_setitem (Rule_setitem (Rule_setitem
        (Rule_setitem (Rule_setitem
        (Rule_init (PBool True) PNone PNone)
        ''action'' (PStr ''drop'')) ''direction'' PNone) ''header'' (PStr ''drop''))
        ''sid'' (PInt 1)) ''group'' (PStr ''x'')) ''msg'' (PStr []))
        ''raw'' (PStr ''drop (sid:1; group:x;)''))
        \<lparr>attr_enabled := Some (PBool True)\<rparr>)"
  by code_simp

lemma drop_example2_raw:
  "Rule_getattr (Rule_setitem (Rule_setitem (Rule_setitem (Rule_setitem (Rule_setitem
        (Rule_setitem (Rule_setitem
        (Rule_init (PBool True) PNone (PStr ''a.rules''))
        ''action'' (PStr ''alert'')) ''direction'' PNone) ''header'' (PStr ''alert''))
        ''sid'' (PInt 1)) ''group'' (PStr ''x'')) ''msg'' (PStr []))
        ''raw'' (PStr ''alert (sid:1; group:x;)'')) ''raw'' =
   Some (PStr ''alert (sid:1; group:x;)'')"
  by code_simp

lemma drop_example2_group: "group_options ''alert (sid:1; group:x;)'' = [Some ''x'']"
  by code_simp

theorem DropRuleFilter_run_group_witness:
  "Rule_getitem ((Rule_setitem (Rule_setitem (Rule_setitem (Rule_setitem (Rule_setitem (Rule_setitem
        (Rule_init (PBool True) PNone PNone)
        ''action'' (PStr ''drop'')) ''direction'' PNone) ''header'' (PStr ''drop''))
        ''msg'' (PStr ''group'')) ''sid'' (PInt 1)) ''raw'' (PStr ''drop (msg:group; sid:1;)''))
        \<lparr>attr_enabled := Some (PBool True)\<rparr>) ''group'' = Some PNone \<and>
   Rule_getitem ((Rule_setitem (Rule_setitem (Rule_setitem (Rule_setitem (Rule_setitem
        (Rule_setitem (Rule_setitem
        (Rule_init (PBool True) PNone PNone)
        ''action'' (PStr ''drop'')) ''direction'' PNone) ''header'' (PStr ''drop''))
        ''sid'' (PInt 1)) ''group'' (PStr ''x'')) ''msg'' (PStr []))
        ''raw'' (PStr ''drop (sid:1; group:x;)''))
        \<lparr>attr_enabled := Some (PBool True)\<rparr>) ''group'' = Some (PStr ''x'')"
  using DropRuleFilter_run_group[THEN conjunct2, rule_format,
      OF drop_example_run drop_example_raw]
    DropRuleFilter_run_group[THEN conjunct2, rule_format,
      OF drop_example2_run drop_example2_raw]
  by (simp add: drop_example_no_group drop_example2_group)

text \<open>
  Claim C10 as stated fails: the parser stores an option named \<open>group\<close> in the
  field \<open>group\<close>, so the drop record of \<open>alert (sid:1; group:x;)\<close> has the
  group \<open>x\<close>.
\<close>

theorem DropRuleFilter_run_group_option:
  "(case parse ''alert (sid:1; group:x;)'' (PStr ''a.rules'') of
      Inl e \<Rightarrow> None
    | Inr None \<Rightarrow> None
    | Inr (Some r) \<Rightarrow>
        (case DropRuleFilter_run r of
           Inl e \<Rightarrow> None
         | Inr d \<Rightarrow> Rule_getitem d ''group'')) = Some (PStr ''x'')"
  by code_simp

end
